theory Spec2Isabelle
  imports Main
begin

section \<open>Python values used by the program\<close>

text \<open>
  The board of \<^verbatim>\<open>minesweeper.py\<close> is a list of lists whose entries are
  \<^verbatim>\<open>None\<close> (before the counts are assigned), the string \<^verbatim>\<open>"*"\<close> (a bomb) or
  an integer (the number of neighbouring bombs). The exceptions the code can raise are
  \<^verbatim>\<open>IndexError\<close> (a list index out of range), \<^verbatim>\<open>TypeError\<close>
  (\<^verbatim>\<open>None > 0\<close>), \<^verbatim>\<open>ValueError\<close> (\<^verbatim>\<open>random.randint\<close> on an empty
  range), \<^verbatim>\<open>RecursionError\<close> (\<^verbatim>\<open>dig\<close> nested deeper than the interpreter
  allows) and \<^verbatim>\<open>ZeroDivisionError\<close> (the division by \<^verbatim>\<open>dimension_size\<close> in
  \<^verbatim>\<open>__str__\<close>).
\<close>

datatype cell = NoneCell | Bomb | Num int

datatype py_error = IndexError | TypeError | ValueError | RecursionError | ZeroDivisionError

text \<open>
  Python list indexing \<^verbatim>\<open>xs[i]\<close>: an index \<open>-len \<le> i < 0\<close> counts from the end,
  an index outside \<open>-len \<le> i < len\<close> raises \<^verbatim>\<open>IndexError\<close>.
\<close>

definition py_index :: "nat \<Rightarrow> int \<Rightarrow> nat option" where
  "py_index len i =
     (if 0 \<le> i \<and> i < int len then Some (nat i)
      else if i < 0 \<and> 0 \<le> int len + i then Some (nat (int len + i))
      else None)"

definition getitem :: "'a list \<Rightarrow> int \<Rightarrow> py_error + 'a" where
  "getitem xs i =
     (case py_index (length xs) i of None \<Rightarrow> Inl IndexError | Some k \<Rightarrow> Inr (xs ! k))"

definition setitem :: "'a list \<Rightarrow> int \<Rightarrow> 'a \<Rightarrow> py_error + 'a list" where
  "setitem xs i v =
     (case py_index (length xs) i of None \<Rightarrow> Inl IndexError | Some k \<Rightarrow> Inr (xs[k := v]))"

text \<open>
  \<^verbatim>\<open>board[row][col]\<close> as an expression and as an assignment target. The rows of
  the board are separate lists (a comprehension builds them), so an assignment changes
  one entry of one row; the model puts the changed row back in its place.
\<close>

definition getitem2 :: "'a list list \<Rightarrow> int \<Rightarrow> int \<Rightarrow> py_error + 'a" where
  "getitem2 bd row col =
     (case getitem bd row of Inl e \<Rightarrow> Inl e | Inr xs \<Rightarrow> getitem xs col)"

definition setitem2 :: "'a list list \<Rightarrow> int \<Rightarrow> int \<Rightarrow> 'a \<Rightarrow> py_error + 'a list list" where
  "setitem2 bd row col v =
     (case getitem bd row of
        Inl e \<Rightarrow> Inl e
      | Inr xs \<Rightarrow>
          (case setitem xs col v of
             Inl e \<Rightarrow> Inl e
           | Inr xs' \<Rightarrow> setitem bd row xs'))"

section \<open>The Board object\<close>

record Board =
  dimension_size :: int
  num_bombs :: int
  board :: "cell list list"
  dug :: "(int \<times> int) set"

text \<open>
  The pairs visited by \<^verbatim>\<open>for r in range(n): for c in range(n)\<close>, in order
  (\<^verbatim>\<open>range(n)\<close> is empty for \<open>n \<le> 0\<close>): \<open>List.product xs ys\<close> lists the pairs
  with the first component in the outer position, as the nested loops visit them.
\<close>

definition all_cells :: "int \<Rightarrow> (int \<times> int) list" where
  "all_cells n = List.product [0..n - 1] [0..n - 1]"

text \<open>
  The pairs visited by the double loop that \<^verbatim>\<open>get_num_neighboring_bombs\<close> and
  \<^verbatim>\<open>dig\<close> share:
  \<^verbatim>\<open>for r in range(max(0, row-1), min(self.dimension_size-1, row+1)+1):
      for c in range(max(0, col-1), min(self.dimension_size-1, col+1)+1):\<close>
  The centre \<open>(row, col)\<close> is among them when it lies on the grid.
\<close>

definition neighbourhood :: "int \<Rightarrow> int \<Rightarrow> int \<Rightarrow> (int \<times> int) list" where
  "neighbourhood n row col =
     List.product [max 0 (row - 1)..min (n - 1) (row + 1)]
                  [max 0 (col - 1)..min (n - 1) (col + 1)]"

subsection \<open>\<^verbatim>\<open>make_new_board\<close>\<close>

text \<open>
  The draws of \<^verbatim>\<open>random.randint(0, dimension_size**2 - 1)\<close> are a parameter: the
  list of the values the generator returns, in order. The \<^verbatim>\<open>while\<close> loop consumes
  one draw per iteration; \<open>None\<close> says that the loop has not finished when the draws
  given are used up. \<^verbatim>\<open>randint\<close> raises \<^verbatim>\<open>ValueError\<close> when its range is empty,
  which is the case for the dimension \<open>0\<close> only; so \<^verbatim>\<open>loc // dimension_size\<close> and
  \<^verbatim>\<open>loc % dimension_size\<close> never divide by zero. On integers they are \<open>div\<close> and
  \<open>mod\<close>, which round towards minus infinity as Python does.
\<close>

fun plant_bombs ::
  "int \<Rightarrow> int \<Rightarrow> cell list list \<Rightarrow> int \<Rightarrow> int list \<Rightarrow> (py_error + cell list list) option" where
  "plant_bombs n nb bd bombs_planted [] =
     (if bombs_planted < nb then
        (if n * n - 1 < 0 then Some (Inl ValueError) else None)
      else Some (Inr bd))"
| "plant_bombs n nb bd bombs_planted (loc # draws) =
     (if bombs_planted < nb then
        (if n * n - 1 < 0 then Some (Inl ValueError)
         else
           (let row = loc div n; col = loc mod n in
            case getitem2 bd row col of
              Inl e \<Rightarrow> Some (Inl e)
            | Inr v \<Rightarrow>
                if v = Bomb then plant_bombs n nb bd bombs_planted draws
                else
                  (case setitem2 bd row col Bomb of
                     Inl e \<Rightarrow> Some (Inl e)
                   | Inr bd' \<Rightarrow> plant_bombs n nb bd' (bombs_planted + 1) draws)))
      else Some (Inr bd))"

definition make_new_board :: "int \<Rightarrow> int \<Rightarrow> int list \<Rightarrow> (py_error + cell list list) option" where
  "make_new_board n nb draws =
     plant_bombs n nb (replicate (nat n) (replicate (nat n) NoneCell)) 0 draws"

subsection \<open>\<^verbatim>\<open>get_num_neighboring_bombs\<close> and \<^verbatim>\<open>assign_values_to_board\<close>\<close>

fun count_bombs ::
  "cell list list \<Rightarrow> int \<Rightarrow> int \<Rightarrow> (int \<times> int) list \<Rightarrow> int \<Rightarrow> py_error + int" where
  "count_bombs bd row col [] num = Inr num"
| "count_bombs bd row col ((r, c) # rest) num =
     (if r = row \<and> c = col then count_bombs bd row col rest num
      else
        (case getitem2 bd r c of
           Inl e \<Rightarrow> Inl e
         | Inr v \<Rightarrow> count_bombs bd row col rest (if v = Bomb then num + 1 else num)))"

definition get_num_neighboring_bombs :: "Board \<Rightarrow> int \<Rightarrow> int \<Rightarrow> py_error + int" where
  "get_num_neighboring_bombs b row col =
     count_bombs (board b) row col (neighbourhood (dimension_size b) row col) 0"

fun assign_loop :: "Board \<Rightarrow> (int \<times> int) list \<Rightarrow> py_error + Board" where
  "assign_loop b [] = Inr b"
| "assign_loop b ((r, c) # rest) =
     (case getitem2 (board b) r c of
        Inl e \<Rightarrow> Inl e
      | Inr v \<Rightarrow>
          if v = Bomb then assign_loop b rest
          else
            (case get_num_neighboring_bombs b r c of
               Inl e \<Rightarrow> Inl e
             | Inr k \<Rightarrow>
                 (case setitem2 (board b) r c (Num k) of
                    Inl e \<Rightarrow> Inl e
                  | Inr bd' \<Rightarrow> assign_loop (b\<lparr>board := bd'\<rparr>) rest)))"

definition assign_values_to_board :: "Board \<Rightarrow> py_error + Board" where
  "assign_values_to_board b = assign_loop b (all_cells (dimension_size b))"

subsection \<open>\<^verbatim>\<open>__init__\<close>\<close>

text \<open>
  The constructor. The record has the field \<open>dug\<close> from the start (the Python object
  gets the attribute last); nothing before that reads it.
\<close>

definition Board_init :: "int \<Rightarrow> int \<Rightarrow> int list \<Rightarrow> (py_error + Board) option" where
  "Board_init n nb draws =
     (case make_new_board n nb draws of
        None \<Rightarrow> None
      | Some (Inl e) \<Rightarrow> Some (Inl e)
      | Some (Inr bd) \<Rightarrow>
          Some (assign_values_to_board
                  \<lparr>dimension_size = n, num_bombs = nb, board = bd, dug = {}\<rparr>))"

subsection \<open>\<^verbatim>\<open>dig\<close>\<close>

text \<open>
  \<^verbatim>\<open>dig\<close> calls itself from inside its double loop, one Python frame on the stack
  for every call that has not returned. The interpreter allows a bounded number of
  nested frames (\<^verbatim>\<open>sys.getrecursionlimit()\<close>, 1000 unless the program raises it,
  and the source never does) and raises \<^verbatim>\<open>RecursionError\<close> at the call that would
  exceed it. The first argument of the model is the number of nested calls of
  \<^verbatim>\<open>dig\<close> that the interpreter still allows where the call is made: the limit,
  less the frames already on the stack. With none left the call raises and the state
  is as it was.

  No exception is caught anywhere in the source: an exception leaves the loop and
  every call of \<^verbatim>\<open>dig\<close> on the stack. The additions to \<open>dug\<close> made before it
  stay, so the state is returned beside the error. The value \<^verbatim>\<open>dig\<close> returns from
  inside the loop is dropped, as in the source.
\<close>

fun dig :: "nat \<Rightarrow> Board \<Rightarrow> int \<Rightarrow> int \<Rightarrow> (py_error + bool) \<times> Board"
  and dig_loop :: "nat \<Rightarrow> Board \<Rightarrow> (int \<times> int) list \<Rightarrow> (py_error + unit) \<times> Board"
where
  "dig 0 b row col = (Inl RecursionError, b)"
| "dig (Suc k) b row col =
     (let b1 = b\<lparr>dug := insert (row, col) (dug b)\<rparr> in
      case getitem2 (board b1) row col of
        Inl e \<Rightarrow> (Inl e, b1)
      | Inr Bomb \<Rightarrow> (Inr False, b1)
      | Inr NoneCell \<Rightarrow> (Inl TypeError, b1)
      | Inr (Num v) \<Rightarrow>
          if v > 0 then (Inr True, b1)
          else
            (case dig_loop k b1 (neighbourhood (dimension_size b1) row col) of
               (Inl e, b2) \<Rightarrow> (Inl e, b2)
             | (Inr u, b2) \<Rightarrow> (Inr True, b2)))"
| "dig_loop k b [] = (Inr (), b)"
| "dig_loop k b ((r, c) # rest) =
     (if (r, c) \<in> dug b then dig_loop k b rest
      else
        (case dig k b r c of
           (Inl e, b') \<Rightarrow> (Inl e, b')
         | (Inr safe, b') \<Rightarrow> dig_loop k b' rest))"

subsection \<open>\<^verbatim>\<open>__str__\<close>\<close>

text \<open>
  \<^verbatim>\<open>print(board)\<close> calls \<^verbatim>\<open>__str__\<close>. The text it builds is left out; what is
  kept is whether it raises. It reads \<^verbatim>\<open>self.board[row][col]\<close> for the cells of
  the grid that are in \<open>dug\<close>, and at the end it divides by
  \<^verbatim>\<open>self.dimension_size\<close>. \<open>None\<close> says that the text is built.
\<close>

fun visible_loop :: "Board \<Rightarrow> (int \<times> int) list \<Rightarrow> py_error option" where
  "visible_loop b [] = None"
| "visible_loop b ((row, col) # rest) =
     (if (row, col) \<in> dug b then
        (case getitem2 (board b) row col of
           Inl e \<Rightarrow> Some e
         | Inr v \<Rightarrow> visible_loop b rest)
      else visible_loop b rest)"

definition Board_str :: "Board \<Rightarrow> py_error option" where
  "Board_str b =
     (case visible_loop b (all_cells (dimension_size b)) of
        Some e \<Rightarrow> Some e
      | None \<Rightarrow> if dimension_size b = 0 then Some ZeroDivisionError else None)"

subsection \<open>\<^verbatim>\<open>play\<close>\<close>

text \<open>
  The loop of \<^verbatim>\<open>play\<close>, with the coordinates the player types given as a list of
  parsed pairs (the parsing of the line typed is left out). Every iteration prints the
  board first. The test on the coordinates only prints a message; the dig that follows
  is made whatever the test says. The loop is left with \<open>safe = False\<close> by
  \<^verbatim>\<open>break\<close> only, and with \<open>safe = True\<close> when its condition fails. After a
  loss, \<open>dug\<close> is set to all the cells and the board is printed once more. An
  exception ends the program. \<open>None\<close>: the program waits for a line that the player
  has not typed. The first argument is the number of nested calls of \<^verbatim>\<open>dig\<close>
  that the interpreter allows inside \<^verbatim>\<open>play\<close>.
\<close>

datatype game_result = Won | Lost

fun play_loop ::
  "nat \<Rightarrow> Board \<Rightarrow> (int \<times> int) list \<Rightarrow> (py_error + game_result \<times> Board) option" where
  "play_loop k b [] =
     (if int (card (dug b)) < dimension_size b * dimension_size b - num_bombs b then
        (case Board_str b of Some e \<Rightarrow> Some (Inl e) | None \<Rightarrow> None)
      else Some (Inr (Won, b)))"
| "play_loop k b ((row, col) # inputs) =
     (if int (card (dug b)) < dimension_size b * dimension_size b - num_bombs b then
        (case Board_str b of
           Some e \<Rightarrow> Some (Inl e)
         | None \<Rightarrow>
             (case dig k b row col of
                (Inl e, b') \<Rightarrow> Some (Inl e)
              | (Inr safe, b') \<Rightarrow>
                  if \<not> safe then
                    (let b'' = b'\<lparr>dug := set (all_cells (dimension_size b'))\<rparr> in
                     case Board_str b'' of
                       Some e \<Rightarrow> Some (Inl e)
                     | None \<Rightarrow> Some (Inr (Lost, b'')))
                  else play_loop k b' inputs))
      else Some (Inr (Won, b)))"

definition play :: "nat \<Rightarrow> int \<Rightarrow> int \<Rightarrow> int list \<Rightarrow> (int \<times> int) list
    \<Rightarrow> (py_error + game_result \<times> Board) option" where
  "play k n nb draws inputs =
     (case Board_init n nb draws of
        None \<Rightarrow> None
      | Some (Inl e) \<Rightarrow> Some (Inl e)
      | Some (Inr b) \<Rightarrow> play_loop k b inputs)"

section \<open>Vocabulary of the properties\<close>

text \<open>The cells of an \<open>n \<times> n\<close> grid, and the entry of a board at a cell of the grid.\<close>

definition in_grid :: "int \<Rightarrow> int \<Rightarrow> int \<Rightarrow> bool" where
  "in_grid n r c \<longleftrightarrow> 0 \<le> r \<and> r < n \<and> 0 \<le> c \<and> c < n"

definition grid_cells :: "int \<Rightarrow> (int \<times> int) set" where
  "grid_cells n = set (all_cells n)"

definition cell_at :: "cell list list \<Rightarrow> int \<Rightarrow> int \<Rightarrow> cell" where
  "cell_at bd r c = bd ! nat r ! nat c"

text \<open>A board of \<open>n\<close> rows of \<open>n\<close> entries each.\<close>

definition wf_grid :: "int \<Rightarrow> cell list list \<Rightarrow> bool" where
  "wf_grid n bd \<longleftrightarrow> 0 \<le> n \<and> length bd = nat n \<and> list_all (\<lambda>xs. length xs = nat n) bd"

text \<open>
  The number of hazards around a cell, as the specification words it: the eight
  positions around \<open>(r, c)\<close> (the list in the comment of
  \<^verbatim>\<open>get_num_neighboring_bombs\<close>), those outside the grid left out, counted when
  they hold a bomb.
\<close>

definition eight_neighbours :: "int \<Rightarrow> int \<Rightarrow> (int \<times> int) list" where
  "eight_neighbours r c =
     [(r - 1, c - 1), (r - 1, c), (r - 1, c + 1),
      (r, c - 1), (r, c + 1),
      (r + 1, c - 1), (r + 1, c), (r + 1, c + 1)]"

definition hazards_around :: "int \<Rightarrow> cell list list \<Rightarrow> int \<Rightarrow> int \<Rightarrow> nat" where
  "hazards_around n bd r c =
     length (filter (\<lambda>(r', c'). in_grid n r' c' \<and> cell_at bd r' c' = Bomb)
                    (eight_neighbours r c))"

text \<open>The cells of the grid that hold a bomb.\<close>

definition hazard_cells :: "Board \<Rightarrow> (int \<times> int) list" where
  "hazard_cells b =
     filter (\<lambda>(r, c). cell_at (board b) r c = Bomb) (all_cells (dimension_size b))"

text \<open>The same cells, as a set.\<close>

definition bomb_set :: "int \<Rightarrow> cell list list \<Rightarrow> (int \<times> int) set" where
  "bomb_set n bd = {(r, c). in_grid n r c \<and> cell_at bd r c = Bomb}"

text \<open>
  What the constructor establishes: the board is a square of the size recorded, and
  every cell that is not a bomb holds the number of hazards around it.
\<close>

definition counts_ok :: "Board \<Rightarrow> bool" where
  "counts_ok b \<longleftrightarrow>
     list_all (\<lambda>(r, c). cell_at (board b) r c = Bomb \<or>
                 cell_at (board b) r c =
                   Num (int (hazards_around (dimension_size b) (board b) r c)))
       (all_cells (dimension_size b))"

definition board_ok :: "Board \<Rightarrow> bool" where
  "board_ok b \<longleftrightarrow> wf_grid (dimension_size b) (board b) \<and> counts_ok b"

text \<open>
  Every revealed cell of the grid with count zero has its whole neighbourhood revealed:
  the state a finished cascade leaves.
\<close>

definition cascade_closed :: "Board \<Rightarrow> bool" where
  "cascade_closed b \<longleftrightarrow>
     list_all (\<lambda>(r, c). (r, c) \<in> dug b \<and> cell_at (board b) r c = Num 0 \<longrightarrow>
                 set (neighbourhood (dimension_size b) r c) \<subseteq> dug b)
       (all_cells (dimension_size b))"

text \<open>
  The same, but for the cells of \<open>P\<close>: the state in the middle of a cascade, where
  \<open>P\<close> holds the cells whose loops are still running.
\<close>

definition closed_except :: "(int \<times> int) set \<Rightarrow> Board \<Rightarrow> bool" where
  "closed_except P b \<longleftrightarrow>
     (\<forall>(r, c) \<in> set (all_cells (dimension_size b)).
        (r, c) \<in> dug b \<and> (r, c) \<notin> P \<and> cell_at (board b) r c = Num 0 \<longrightarrow>
        set (neighbourhood (dimension_size b) r c) \<subseteq> dug b)"

text \<open>The number of cells of the grid that are not revealed yet.\<close>

definition undug :: "Board \<Rightarrow> nat" where
  "undug b = card (grid_cells (dimension_size b) - dug b)"

text \<open>The board with the entry at a cell of the grid replaced.\<close>

definition put_cell :: "cell list list \<Rightarrow> int \<Rightarrow> int \<Rightarrow> cell \<Rightarrow> cell list list" where
  "put_cell bd r c v = bd[nat r := (bd ! nat r)[nat c := v]]"

text \<open>
  A board for the examples: two rows and columns, one bomb in the corner \<open>(1, 1)\<close>,
  as the constructor builds it when the generator draws \<open>3\<close>.
\<close>

definition demo_board :: Board where
  "demo_board = \<lparr>dimension_size = 2, num_bombs = 1,
                  board = [[Num 1, Num 1], [Num 1, Bomb]], dug = {}\<rparr>"

text \<open>The board of dimension \<open>n\<close> without bombs, every count zero, nothing revealed.\<close>

definition blank_board :: "int \<Rightarrow> Board" where
  "blank_board n = \<lparr>dimension_size = n, num_bombs = 0,
                     board = replicate (nat n) (replicate (nat n) (Num 0)), dug = {}\<rparr>"

text \<open>
  The board of the specification's example: three rows and columns, one bomb in the
  corner \<open>(2, 2)\<close> (the draw \<open>8\<close>); and the state that \<^verbatim>\<open>dig(0, 0)\<close> leaves
  on it, every cell but the bomb revealed.
\<close>

definition cascade_board :: Board where
  "cascade_board = \<lparr>dimension_size = 3, num_bombs = 1,
                     board = [[Num 0, Num 0, Num 0], [Num 0, Num 1, Num 1], [Num 0, Num 1, Bomb]],
                     dug = {}\<rparr>"

definition cascade_board_dug :: Board where
  "cascade_board_dug =
     cascade_board\<lparr>dug := {(0, 0), (0, 1), (0, 2), (1, 0), (1, 1), (1, 2), (2, 0), (2, 1)}\<rparr>"

section \<open>Python indexing on a well-formed board\<close>

lemma py_index_in_range: "0 \<le> i \<Longrightarrow> i < int len \<Longrightarrow> py_index len i = Some (nat i)"
  by (simp add: py_index_def)

lemma set_all_cells: "set (all_cells n) = {(r, c). in_grid n r c}"
  by (auto simp: all_cells_def in_grid_def)

lemma distinct_all_cells: "distinct (all_cells n)"
  by (simp add: all_cells_def distinct_product)

lemma set_neighbourhood:
  "set (neighbourhood n row col) =
     {(r, c). max 0 (row - 1) \<le> r \<and> r \<le> min (n - 1) (row + 1) \<and>
              max 0 (col - 1) \<le> c \<and> c \<le> min (n - 1) (col + 1)}"
  by (auto simp: neighbourhood_def)

lemma distinct_neighbourhood: "distinct (neighbourhood n row col)"
  by (simp add: neighbourhood_def distinct_product)

lemma neighbourhood_in_grid: "(r, c) \<in> set (neighbourhood n row col) \<Longrightarrow> in_grid n r c"
  by (auto simp: set_neighbourhood in_grid_def)

lemma getitem_grid: "0 \<le> i \<Longrightarrow> i < int (length xs) \<Longrightarrow> getitem xs i = Inr (xs ! nat i)"
  by (simp add: getitem_def py_index_in_range)

lemma setitem_grid: "0 \<le> i \<Longrightarrow> i < int (length xs) \<Longrightarrow> setitem xs i v = Inr (xs[nat i := v])"
  by (simp add: setitem_def py_index_in_range)

lemma wf_grid_row: "wf_grid n bd \<Longrightarrow> 0 \<le> r \<Longrightarrow> r < n \<Longrightarrow> length (bd ! nat r) = nat n"
proof -
  assume a: "wf_grid n bd" "0 \<le> r" "r < n"
  then have "nat r < length bd" by (simp add: wf_grid_def)
  then have "bd ! nat r \<in> set bd" by (rule nth_mem)
  with a show ?thesis by (simp add: wf_grid_def list_all_iff)
qed

lemma wf_grid_length: "wf_grid n bd \<Longrightarrow> length bd = nat n"
  by (simp add: wf_grid_def)

lemma getitem2_grid:
  assumes "wf_grid n bd" "in_grid n r c"
  shows "getitem2 bd r c = Inr (cell_at bd r c)"
proof -
  from assms have r: "0 \<le> r" "r < int (length bd)" and c: "0 \<le> c" "c < int (length (bd ! nat r))"
    using wf_grid_row [of n bd r] wf_grid_length [of n bd] by (auto simp: in_grid_def)
  show ?thesis
    by (simp add: getitem2_def getitem_grid [OF r] getitem_grid [OF c] cell_at_def)
qed

lemma setitem2_grid:
  assumes "wf_grid n bd" "in_grid n r c"
  shows "setitem2 bd r c v = Inr (put_cell bd r c v)"
proof -
  from assms have r: "0 \<le> r" "r < int (length bd)" and c: "0 \<le> c" "c < int (length (bd ! nat r))"
    using wf_grid_row [of n bd r] wf_grid_length [of n bd] by (auto simp: in_grid_def)
  show ?thesis
    by (simp add: setitem2_def getitem_grid [OF r] setitem_grid [OF c] setitem_grid [OF r] put_cell_def)
qed

lemma wf_grid_put: "wf_grid n bd \<Longrightarrow> wf_grid n (put_cell bd r c v)"
proof (cases "nat r < length bd")
  case True
  assume "wf_grid n bd"
  with True show ?thesis
    by (auto simp: wf_grid_def put_cell_def list_all_iff set_update_distinct
             dest!: set_update_subset_insert [THEN subsetD])
next
  case False
  assume "wf_grid n bd"
  with False show ?thesis by (simp add: put_cell_def list_update_beyond)
qed

lemma cell_at_put:
  assumes "wf_grid n bd" "in_grid n r c" "in_grid n r' c'"
  shows "cell_at (put_cell bd r c v) r' c' = (if r' = r \<and> c' = c then v else cell_at bd r' c')"
proof -
  from assms have r: "nat r < length bd" and c: "nat c < length (bd ! nat r)"
    and r': "nat r' < length bd"
    using wf_grid_row [of n bd r] wf_grid_length [of n bd] by (auto simp: in_grid_def)
  from assms have eq: "nat r' = nat r \<longleftrightarrow> r' = r" "nat c' = nat c \<longleftrightarrow> c' = c"
    by (auto simp: in_grid_def)
  show ?thesis using r c r' eq
    by (auto simp: cell_at_def put_cell_def nth_list_update)
qed

section \<open>The steps of \<^verbatim>\<open>dig\<close>\<close>

lemma dig_Suc_cases [consumes 1, case_names err bomb none pos zero]:
  assumes "dig (Suc k) b row col = (res, b')"
  obtains
    e where "getitem2 (board b) row col = Inl e" "res = Inl e"
      "b' = b\<lparr>dug := insert (row, col) (dug b)\<rparr>"
  | "getitem2 (board b) row col = Inr Bomb" "res = Inr False"
      "b' = b\<lparr>dug := insert (row, col) (dug b)\<rparr>"
  | "getitem2 (board b) row col = Inr NoneCell" "res = Inl TypeError"
      "b' = b\<lparr>dug := insert (row, col) (dug b)\<rparr>"
  | v where "getitem2 (board b) row col = Inr (Num v)" "0 < v" "res = Inr True"
      "b' = b\<lparr>dug := insert (row, col) (dug b)\<rparr>"
  | v r' where "getitem2 (board b) row col = Inr (Num v)" "\<not> 0 < v"
      "dig_loop k (b\<lparr>dug := insert (row, col) (dug b)\<rparr>)
         (neighbourhood (dimension_size b) row col) = (r', b')"
      "res = (case r' of Inl e \<Rightarrow> Inl e | Inr u \<Rightarrow> Inr True)"
proof (cases "getitem2 (board b) row col")
  case (Inl e)
  with assms show ?thesis by (intro that(1) [of e]) (simp_all add: Let_def)
next
  case (Inr v)
  show ?thesis
  proof (cases v)
    case NoneCell
    with Inr assms show ?thesis by (intro that(3)) (simp_all add: Let_def)
  next
    case Bomb
    with Inr assms show ?thesis by (intro that(2)) (simp_all add: Let_def)
  next
    case (Num x)
    show ?thesis
    proof (cases "0 < x")
      case True
      with Num Inr assms show ?thesis by (intro that(4) [of x]) (simp_all add: Let_def)
    next
      case False
      with Num Inr assms obtain r' where
        "dig_loop k (b\<lparr>dug := insert (row, col) (dug b)\<rparr>)
           (neighbourhood (dimension_size b) row col) = (r', b')"
        "res = (case r' of Inl e \<Rightarrow> Inl e | Inr u \<Rightarrow> Inr True)"
        by (auto simp: Let_def split: prod.splits sum.splits)
      with Num Inr False show ?thesis by (intro that(5) [of x r']) simp_all
    qed
  qed
qed

lemma dig_loop_Cons_cases [consumes 1, case_names skip err go]:
  assumes "dig_loop k b ((r, c) # rest) = (res, b')"
  obtains
    "(r, c) \<in> dug b" "dig_loop k b rest = (res, b')"
  | e where "(r, c) \<notin> dug b" "dig k b r c = (Inl e, b')" "res = Inl e"
  | s b1 where "(r, c) \<notin> dug b" "dig k b r c = (Inr s, b1)"
      "dig_loop k b1 rest = (res, b')"
  using assms by (auto split: if_splits prod.splits sum.splits)

text \<open>
  The induction that follows the calls: a property of \<^verbatim>\<open>dig\<close> and one of its loop,
  each proved from the property of the calls it makes.
\<close>

lemma dig_induct [case_names limit call empty step]:
  assumes "\<And>b row col. P 0 b row col"
    and "\<And>k b row col.
           (\<And>v. getitem2 (board b) row col = Inr (Num v) \<Longrightarrow> \<not> 0 < v \<Longrightarrow>
              Q k (b\<lparr>dug := insert (row, col) (dug b)\<rparr>)
                (neighbourhood (dimension_size b) row col)) \<Longrightarrow>
           P (Suc k) b row col"
    and "\<And>k b. Q k b []"
    and "\<And>k b r c rest.
           ((r, c) \<in> dug b \<Longrightarrow> Q k b rest) \<Longrightarrow>
           ((r, c) \<notin> dug b \<Longrightarrow> P k b r c) \<Longrightarrow>
           (\<And>s b1. (r, c) \<notin> dug b \<Longrightarrow> dig k b r c = (Inr s, b1) \<Longrightarrow> Q k b1 rest) \<Longrightarrow>
           Q k b ((r, c) # rest)"
  shows "P k b row col" and "Q k b xs"
proof (induction k b row col and k b xs rule: dig_dig_loop.induct)
  case (1 b row col)
  show ?case by (rule assms(1))
next
  case (2 k b row col)
  show ?case
  proof (rule assms(2))
    fix v assume "getitem2 (board b) row col = Inr (Num v)" "\<not> 0 < v"
    with "2.IH" [OF refl _ refl, of v]
    show "Q k (b\<lparr>dug := insert (row, col) (dug b)\<rparr>) (neighbourhood (dimension_size b) row col)"
      by simp
  qed
next
  case (3 k b)
  show ?case by (rule assms(3))
next
  case (4 k b r c rest)
  show ?case
  proof (rule assms(4))
    fix s b1 assume "(r, c) \<notin> dug b" "dig k b r c = (Inr s, b1)"
    with "4.IH"(3) [of "Inr s" b1 s] show "Q k b1 rest" by simp
  qed (use "4.IH"(1,2) in simp_all)
qed

lemma dig_frame:
  "dig k b row col = (res, b') \<Longrightarrow>
     dug b \<subseteq> dug b' \<and> board b' = board b \<and>
     dimension_size b' = dimension_size b \<and> num_bombs b' = num_bombs b"
  "dig_loop k b xs = (res', b') \<Longrightarrow>
     dug b \<subseteq> dug b' \<and> board b' = board b \<and>
     dimension_size b' = dimension_size b \<and> num_bombs b' = num_bombs b"
proof (induction k b row col and k b xs arbitrary: res b' and res' b' rule: dig_induct)
  case (limit b row col)
  then show ?case by simp
next
  case (call k b row col)
  from call.prems show ?case
  proof (cases rule: dig_Suc_cases)
    case (zero v r')
    from call.IH [OF zero(1,2,3)] show ?thesis by simp
  qed auto
next
  case (empty k b)
  then show ?case by simp
next
  case (step k b r c rest)
  from step.prems show ?case
  proof (cases rule: dig_loop_Cons_cases)
    case skip
    with step.IH(1) show ?thesis by simp
  next
    case (err e)
    with step.IH(2) show ?thesis by simp
  next
    case (go s b1)
    from step.IH(2) [OF go(1,2)] step.IH(3) [OF go(1,2,3)]
    show ?thesis by auto
  qed
qed

text \<open>A call that the interpreter lets in adds its cell to \<open>dug\<close> before anything else.\<close>

lemma dig_adds:
  assumes "dig (Suc k) b row col = (res, b')"
  shows "(row, col) \<in> dug b'"
  using assms
proof (cases rule: dig_Suc_cases)
  case (zero v r')
  from dig_frame(2) [OF zero(3)] show ?thesis by auto
qed auto

lemma dig_adds_Inr:
  assumes "dig k b row col = (Inr s, b')"
  shows "(row, col) \<in> dug b'"
proof (cases k)
  case 0
  with assms show ?thesis by simp
next
  case (Suc j)
  with assms have "dig (Suc j) b row col = (Inr s, b')" by simp
  then show ?thesis by (rule dig_adds)
qed

section \<open>Digging a hazard, digging off the grid\<close>

text \<open>
  Claim C9. On a well-formed board, \<^verbatim>\<open>dig\<close> at a cell of the grid that holds a bomb
  returns \<^verbatim>\<open>False\<close> (the hazard was hit) whenever the interpreter lets the call
  in, and the state it leaves is the state before with exactly \<open>(row, col)\<close> added
  to \<open>dug\<close>: no other cell becomes revealed, nothing is removed, and the board, its
  size and the bomb count are untouched. There is no cascade from a hazard.
\<close>

theorem dig_hazard:
  assumes "wf_grid (dimension_size b) (board b)"
    and "in_grid (dimension_size b) row col"
    and "cell_at (board b) row col = Bomb"
  shows "dig (Suc k) b row col = (Inr False, b\<lparr>dug := insert (row, col) (dug b)\<rparr>)"
  using assms by (simp add: getitem2_grid Let_def)

theorem dig_hazard_witness:
  "wf_grid (dimension_size demo_board) (board demo_board) \<and>
   in_grid (dimension_size demo_board) 1 1 \<and>
   cell_at (board demo_board) 1 1 = Bomb \<and>
   dig (Suc 0) demo_board 1 1 = (Inr False, demo_board\<lparr>dug := {(1, 1)}\<rparr>)"
  using dig_hazard [of demo_board 1 1 0]
  by (simp add: demo_board_def wf_grid_def in_grid_def cell_at_def)

text \<open>
  Claim C1 says that \<^verbatim>\<open>dig\<close> with a coordinate off the grid reports
  \<^verbatim>\<open>OutOfBounds\<close> and leaves the state as it was. \<^verbatim>\<open>play\<close> tests the
  coordinates and prints \<^verbatim>\<open>Invalid location. Try again\<close>, but has no
  \<^verbatim>\<open>continue\<close> after it: the line under the comment \<^verbatim>\<open>if it's valid, we dig\<close>
  runs all the same. \<^verbatim>\<open>dig\<close> itself adds the coordinate to \<open>dug\<close> before it reads
  the board. On the two-by-two board, the row \<open>2\<close> raises \<^verbatim>\<open>IndexError\<close> after
  \<open>(2, 0)\<close> has entered \<open>dug\<close>; the row \<open>-1\<close> is read by Python as the last row, so
  the dig succeeds and \<open>(-1, 0)\<close> enters \<open>dug\<close>.
\<close>

theorem dig_out_of_bounds_mutates:
  "dig 1 demo_board 2 0 = (Inl IndexError, demo_board\<lparr>dug := {(2, 0)}\<rparr>) \<and>
   dig 1 demo_board (- 1) 0 = (Inr True, demo_board\<lparr>dug := {(- 1, 0)}\<rparr>)"
  by (simp add: demo_board_def getitem2_def getitem_def py_index_def Let_def)

section \<open>The depth of the recursion\<close>

lemma grid_cells_iff: "(r, c) \<in> grid_cells n \<longleftrightarrow> in_grid n r c"
  by (simp add: grid_cells_def set_all_cells)

lemma finite_grid_cells: "finite (grid_cells n)"
  by (simp add: grid_cells_def)

lemma card_grid_cells: "card (grid_cells n) = nat n * nat n"
  by (simp add: grid_cells_def distinct_card [OF distinct_all_cells] all_cells_def)

lemma undug_le_grid: "undug b \<le> nat (dimension_size b) * nat (dimension_size b)"
  unfolding undug_def card_grid_cells [symmetric]
  by (rule card_mono [OF finite_grid_cells]) auto

lemma undug_mono:
  "dug b \<subseteq> dug b' \<Longrightarrow> dimension_size b' = dimension_size b \<Longrightarrow> undug b' \<le> undug b"
  unfolding undug_def by (rule card_mono) (auto simp: finite_grid_cells)

lemma undug_insert_less:
  assumes "in_grid (dimension_size b) r c" "(r, c) \<notin> dug b"
  shows "undug (b\<lparr>dug := insert (r, c) (dug b)\<rparr>) < undug b"
proof -
  let ?G = "grid_cells (dimension_size b)"
  from assms have "(r, c) \<in> ?G - dug b" by (simp add: grid_cells_iff)
  moreover have "(r, c) \<notin> ?G - insert (r, c) (dug b)" by simp
  moreover have "?G - insert (r, c) (dug b) \<subseteq> ?G - dug b" by blast
  ultimately have "?G - insert (r, c) (dug b) \<subset> ?G - dug b" by blast
  then have "card (?G - insert (r, c) (dug b)) < card (?G - dug b)"
    by (intro psubset_card_mono) (simp_all add: finite_grid_cells)
  then show ?thesis by (simp add: undug_def)
qed

lemma undug_insert_le: "undug (b\<lparr>dug := insert (r, c) (dug b)\<rparr>) \<le> undug b"
  by (rule undug_mono) auto

lemma dig_frame_undug:
  "dig k b row col = (res, b') \<Longrightarrow> undug b' \<le> undug b"
  using dig_frame(1) [of k b row col res b'] by (intro undug_mono) simp_all

lemma getitem2_error: "getitem2 bd r c = Inl e \<Longrightarrow> e = IndexError"
  by (auto simp: getitem2_def getitem_def split: option.splits sum.splits)

text \<open>
  With more nested calls allowed than there are cells of the grid still hidden, no
  \<^verbatim>\<open>RecursionError\<close> is raised.
\<close>

lemma dig_deep_enough:
  "dig k b row col = (res, b') \<Longrightarrow> undug (b\<lparr>dug := insert (row, col) (dug b)\<rparr>) < k \<Longrightarrow>
     res \<noteq> Inl RecursionError"
  "dig_loop k b xs = (res', b') \<Longrightarrow>
     list_all (\<lambda>(r, c). in_grid (dimension_size b) r c) xs \<Longrightarrow> undug b \<le> k \<Longrightarrow>
     res' \<noteq> Inl RecursionError"
proof (induction k b row col and k b xs arbitrary: res b' and res' b' rule: dig_induct)
  case (limit b row col)
  then show ?case by simp
next
  case (call k b row col)
  let ?b1 = "b\<lparr>dug := insert (row, col) (dug b)\<rparr>"
  from call.prems(1) show ?case
  proof (cases rule: dig_Suc_cases)
    case (err e)
    with getitem2_error [of "board b" row col e] show ?thesis by simp
  next
    case (zero v r')
    have "list_all (\<lambda>(r, c). in_grid (dimension_size ?b1) r c)
            (neighbourhood (dimension_size b) row col)"
      by (auto simp: list_all_iff dest: neighbourhood_in_grid)
    moreover from call.prems(2) have "undug ?b1 \<le> k" by simp
    ultimately have "r' \<noteq> Inl RecursionError"
      by (rule call.IH [OF zero(1,2,3)])
    with zero(4) show ?thesis by (cases r') simp_all
  qed simp_all
next
  case (empty k b)
  then show ?case by auto
next
  case (step k b r c rest)
  from step.prems(2) have g: "in_grid (dimension_size b) r c"
    and rest: "list_all (\<lambda>(r, c). in_grid (dimension_size b) r c) rest" by simp_all
  from step.prems(1) show ?case
  proof (cases rule: dig_loop_Cons_cases)
    case skip
    from step.IH(1) [OF skip rest step.prems(3)] show ?thesis .
  next
    case (err e)
    from undug_insert_less [OF g err(1)] step.prems(3)
    have "undug (b\<lparr>dug := insert (r, c) (dug b)\<rparr>) < k" by simp
    from step.IH(2) [OF err(1,2) this] err(3) show ?thesis by simp
  next
    case (go s b1)
    from dig_frame_undug [OF go(2)] dig_frame(1) [OF go(2)] rest step.prems(3)
    have "list_all (\<lambda>(r, c). in_grid (dimension_size b1) r c) rest" "undug b1 \<le> k"
      by simp_all
    from step.IH(3) [OF go(1,2,3) this] show ?thesis .
  qed
qed

text \<open>
  A call that raises no \<^verbatim>\<open>RecursionError\<close> does the same when more nested calls
  are allowed.
\<close>

lemma dig_fuel_mono:
  "dig k b row col = (res, b') \<Longrightarrow> res \<noteq> Inl RecursionError \<Longrightarrow> k \<le> k' \<Longrightarrow>
     dig k' b row col = (res, b')"
  "dig_loop k b xs = (res', b') \<Longrightarrow> res' \<noteq> Inl RecursionError \<Longrightarrow> k \<le> k' \<Longrightarrow>
     dig_loop k' b xs = (res', b')"
proof (induction k b row col and k b xs arbitrary: res b' k' and res' b' k' rule: dig_induct)
  case (limit b row col)
  then show ?case by simp
next
  case (call k b row col)
  from call.prems(3) obtain j where k': "k' = Suc j" and j: "k \<le> j"
    by (cases k') auto
  from call.prems(1) show ?case
  proof (cases rule: dig_Suc_cases)
    case (zero v r')
    from zero(4) call.prems(2) have "r' \<noteq> Inl RecursionError" by (cases r') auto
    from call.IH [OF zero(1,2,3) this j]
    have "dig_loop j (b\<lparr>dug := insert (row, col) (dug b)\<rparr>)
            (neighbourhood (dimension_size b) row col) = (r', b')" .
    with zero k' show ?thesis by (simp add: Let_def split: sum.splits)
  qed (simp_all add: k' Let_def)
next
  case (empty k b)
  then show ?case by simp
next
  case (step k b r c rest)
  from step.prems(1) show ?case
  proof (cases rule: dig_loop_Cons_cases)
    case skip
    with step.IH(1) step.prems(2,3) show ?thesis by simp
  next
    case (err e)
    with step.prems(2) have "Inl e \<noteq> (Inl RecursionError :: py_error + bool)" by simp
    from step.IH(2) [OF err(1,2) this step.prems(3)] err(1,3) show ?thesis by simp
  next
    case (go s b1)
    from step.IH(2) [OF go(1,2) _ step.prems(3)] have "dig k' b r c = (Inr s, b1)" by simp
    moreover from step.IH(3) [OF go(1,2,3) step.prems(2,3)]
    have "dig_loop k' b1 rest = (res', b')" .
    ultimately show ?thesis using go(1) by simp
  qed
qed

section \<open>Neighbourhoods and counts\<close>

lemma neighbourhood_cases:
  assumes "in_grid n r c" "(r', c') \<in> set (neighbourhood n r c)"
  shows "(r', c') = (r, c) \<or> ((r', c') \<in> set (eight_neighbours r c) \<and> in_grid n r' c')"
proof -
  from assms(2) have "r - 1 \<le> r'" "r' \<le> r + 1" "c - 1 \<le> c'" "c' \<le> c + 1"
    and g: "in_grid n r' c'"
    by (auto simp: set_neighbourhood in_grid_def)
  then have "r' = r - 1 \<or> r' = r \<or> r' = r + 1" "c' = c - 1 \<or> c' = c \<or> c' = c + 1"
    by arith+
  with g show ?thesis by (auto simp: eight_neighbours_def)
qed

lemma eight_in_neighbourhood:
  assumes "in_grid n r c" "(r', c') \<in> set (eight_neighbours r c)" "in_grid n r' c'"
  shows "(r', c') \<in> set (neighbourhood n r c)"
  using assms by (auto simp: set_neighbourhood in_grid_def eight_neighbours_def)

lemma centre_in_neighbourhood: "in_grid n r c \<Longrightarrow> (r, c) \<in> set (neighbourhood n r c)"
  by (auto simp: set_neighbourhood in_grid_def)

lemma centre_not_eight: "(r, c) \<notin> set (eight_neighbours r c)"
  by (simp add: eight_neighbours_def)

lemma distinct_eight: "distinct (eight_neighbours r c)"
  by (simp add: eight_neighbours_def)

lemma hazards_around_zero:
  assumes "hazards_around n bd r c = 0" "(r', c') \<in> set (eight_neighbours r c)" "in_grid n r' c'"
  shows "cell_at bd r' c' \<noteq> Bomb"
proof -
  from assms(1) have "filter (\<lambda>(r', c'). in_grid n r' c' \<and> cell_at bd r' c' = Bomb)
      (eight_neighbours r c) = []"
    by (simp add: hazards_around_def)
  then have "\<forall>p \<in> set (eight_neighbours r c). \<not> (case p of (r', c') \<Rightarrow> in_grid n r' c' \<and> cell_at bd r' c' = Bomb)"
    by (simp add: filter_empty_conv)
  with assms(2,3) show ?thesis by auto
qed

lemma counts_okD:
  assumes "counts_ok b" "in_grid (dimension_size b) r c"
  shows "cell_at (board b) r c = Bomb \<or>
         cell_at (board b) r c = Num (int (hazards_around (dimension_size b) (board b) r c))"
proof -
  from assms(2) have "(r, c) \<in> set (all_cells (dimension_size b))" by (simp add: set_all_cells)
  with assms(1) show ?thesis unfolding counts_ok_def list_all_iff by blast
qed

lemma board_ok_cong:
  "board b' = board b \<Longrightarrow> dimension_size b' = dimension_size b \<Longrightarrow> board_ok b' = board_ok b"
  by (simp add: board_ok_def counts_ok_def)

lemma board_ok_wf: "board_ok b \<Longrightarrow> wf_grid (dimension_size b) (board b)"
  by (simp add: board_ok_def)

lemma board_ok_cell:
  assumes "board_ok b" "in_grid (dimension_size b) r c"
  shows "getitem2 (board b) r c = Inr (cell_at (board b) r c)"
    and "cell_at (board b) r c = Bomb \<or>
         cell_at (board b) r c = Num (int (hazards_around (dimension_size b) (board b) r c))"
  using assms by (auto simp: board_ok_def intro: getitem2_grid dest: counts_okD)

text \<open>A cell with count zero has no bomb in its neighbourhood.\<close>

lemma zero_cell_neighbours_safe:
  assumes "board_ok b" "in_grid (dimension_size b) r c" "cell_at (board b) r c = Num v" "\<not> 0 < v"
    and "(r', c') \<in> set (neighbourhood (dimension_size b) r c)"
  shows "cell_at (board b) r' c' \<noteq> Bomb" and "v = 0"
proof -
  from board_ok_cell(2) [OF assms(1,2)] assms(3,4)
  have h: "hazards_around (dimension_size b) (board b) r c = 0" and v: "v = 0" by auto
  from neighbourhood_cases [OF assms(2,5)] show "cell_at (board b) r' c' \<noteq> Bomb"
  proof
    assume "(r', c') = (r, c)"
    with assms(3) show ?thesis by simp
  next
    assume "(r', c') \<in> set (eight_neighbours r c) \<and> in_grid (dimension_size b) r' c'"
    with hazards_around_zero [OF h] show ?thesis by blast
  qed
  from v show "v = 0" .
qed

section \<open>The constructor\<close>

lemma loc_row_col:
  assumes "1 \<le> n" "0 \<le> loc" "loc < n * n"
  shows "in_grid n (loc div n) (loc mod n)"
proof -
  from assms have "0 \<le> loc div n" by (simp add: pos_imp_zdiv_nonneg_iff)
  moreover have "loc div n < n"
  proof (rule ccontr)
    assume "\<not> loc div n < n"
    then have "n \<le> loc div n" by simp
    with assms(1) have 1: "n * n \<le> n * (loc div n)" by (intro mult_left_mono) simp_all
    have 2: "n * (loc div n) + loc mod n = loc" by simp
    have 3: "0 \<le> loc mod n" using assms(1) by simp
    from 1 2 3 assms(3) show False by linarith
  qed
  moreover from assms(1) have "0 \<le> loc mod n" "loc mod n < n" by simp_all
  ultimately show ?thesis by (simp add: in_grid_def)
qed

lemma loc_of_cell:
  assumes "in_grid n r c"
  shows "0 \<le> r * n + c" "r * n + c < n * n" "(r * n + c) div n = r" "(r * n + c) mod n = c"
proof -
  from assms have n: "0 < n" and r: "0 \<le> r" "r < n" and c: "0 \<le> c" "c < n"
    by (auto simp: in_grid_def)
  from r c n show "0 \<le> r * n + c" by simp
  from r have "r + 1 \<le> n" by simp
  with n have "(r + 1) * n \<le> n * n" by (intro mult_right_mono) simp_all
  with c show "r * n + c < n * n" by (simp add: algebra_simps)
  from c n show "(r * n + c) div n = r" by simp
  from c n show "(r * n + c) mod n = c" by simp
qed

lemma bomb_set_subset: "bomb_set n bd \<subseteq> grid_cells n"
  by (auto simp: bomb_set_def grid_cells_iff)

lemma finite_bomb_set: "finite (bomb_set n bd)"
  by (rule finite_subset [OF bomb_set_subset finite_grid_cells])

lemma card_bomb_set_le: "card (bomb_set n bd) \<le> nat n * nat n"
  using card_mono [OF finite_grid_cells bomb_set_subset] by (simp add: card_grid_cells)

lemma set_hazard_cells: "set (hazard_cells b) = bomb_set (dimension_size b) (board b)"
  by (auto simp: hazard_cells_def bomb_set_def set_all_cells)

lemma distinct_hazard_cells: "distinct (hazard_cells b)"
  by (simp add: hazard_cells_def distinct_all_cells)

lemma length_hazard_cells: "length (hazard_cells b) = card (bomb_set (dimension_size b) (board b))"
  using distinct_card [OF distinct_hazard_cells, of b] by (simp add: set_hazard_cells)

lemma bomb_set_put_bomb:
  assumes "wf_grid n bd" "in_grid n r c"
  shows "bomb_set n (put_cell bd r c Bomb) = insert (r, c) (bomb_set n bd)"
  using assms by (auto simp: bomb_set_def cell_at_put)

lemma bomb_set_put_other:
  assumes "wf_grid n bd" "in_grid n r c" "cell_at bd r c \<noteq> Bomb" "v \<noteq> Bomb"
  shows "bomb_set n (put_cell bd r c v) = bomb_set n bd"
  using assms by (auto simp: bomb_set_def cell_at_put split: if_splits)

text \<open>An assignment with Python indices, whatever they are, keeps the shape of the board.\<close>

lemma py_index_less: "py_index len i = Some k \<Longrightarrow> k < len"
  by (auto simp: py_index_def split: if_splits)

lemma setitem2_wf:
  assumes "wf_grid n bd" "setitem2 bd r c v = Inr bd'"
  shows "wf_grid n bd'"
proof -
  from assms(2) obtain k j where k: "py_index (length bd) r = Some k"
    and j: "py_index (length (bd ! k)) c = Some j"
    and bd': "bd' = bd[k := (bd ! k)[j := v]]"
    by (auto simp: setitem2_def getitem_def setitem_def split: option.splits)
  from py_index_less [OF k] have "bd ! k \<in> set bd" by simp
  with assms(1) have "length ((bd ! k)[j := v]) = nat n" by (simp add: wf_grid_def list_all_iff)
  with assms(1) show ?thesis
    unfolding bd' wf_grid_def list_all_iff
    by (auto dest!: set_update_subset_insert [THEN subsetD])
qed

lemma wf_grid_initial: "0 \<le> n \<Longrightarrow> wf_grid n (replicate (nat n) (replicate (nat n) NoneCell))"
  by (simp add: wf_grid_def list_all_iff)

lemma bomb_set_initial: "bomb_set n (replicate (nat n) (replicate (nat n) NoneCell)) = {}"
  by (auto simp: bomb_set_def cell_at_def in_grid_def)

lemma plant_bombs_wf:
  "plant_bombs n nb bd p draws = Some (Inr bd') \<Longrightarrow> wf_grid n bd \<Longrightarrow> wf_grid n bd'"
proof (induction draws arbitrary: bd p)
  case Nil
  then show ?case by (simp split: if_splits)
next
  case (Cons loc draws)
  show ?case
  proof (cases "p < nb \<and> \<not> n * n - 1 < 0")
    case False
    with Cons.prems show ?thesis by (auto split: if_splits)
  next
    case True
    show ?thesis
    proof (cases "getitem2 bd (loc div n) (loc mod n)")
      case (Inl e)
      with True Cons.prems show ?thesis by (simp add: Let_def)
    next
      case (Inr v)
      show ?thesis
      proof (cases "v = Bomb")
        case True
        with \<open>p < nb \<and> \<not> n * n - 1 < 0\<close> Inr Cons.prems Cons.IH [of bd p]
        show ?thesis by (simp add: Let_def)
      next
        case False
        show ?thesis
        proof (cases "setitem2 bd (loc div n) (loc mod n) Bomb")
          case (Inl e)
          with False True Inr Cons.prems show ?thesis by (simp add: Let_def)
        next
          case s: (Inr bd1)
          from setitem2_wf [OF Cons.prems(2) s] have "wf_grid n bd1" .
          with False True Inr s Cons.prems Cons.IH [of bd1 "p + 1"]
          show ?thesis by (simp add: Let_def)
        qed
      qed
    qed
  qed
qed

lemma count_bombs_grid:
  assumes "wf_grid n bd" "\<forall>(r, c) \<in> set xs. in_grid n r c"
  shows "count_bombs bd row col xs num =
     Inr (num + int (length (filter (\<lambda>(r, c). (r, c) \<noteq> (row, col) \<and> cell_at bd r c = Bomb) xs)))"
  using assms(2)
proof (induction xs arbitrary: num)
  case Nil
  then show ?case by simp
next
  case (Cons p xs)
  obtain r c where p: "p = (r, c)" by (cases p)
  from Cons.prems p have g: "in_grid n r c" and rest: "\<forall>(r, c) \<in> set xs. in_grid n r c"
    by simp_all
  from getitem2_grid [OF assms(1) g] Cons.IH [OF rest] p show ?case by auto
qed

lemma neighbours_filter_eq:
  assumes "in_grid n r c"
  shows "length (filter (\<lambda>(r', c'). (r', c') \<noteq> (r, c) \<and> cell_at bd r' c' = Bomb)
                  (neighbourhood n r c)) = hazards_around n bd r c"
proof -
  let ?P = "\<lambda>(r', c'). (r', c') \<noteq> (r, c) \<and> cell_at bd r' c' = Bomb"
  let ?Q = "\<lambda>(r', c'). in_grid n r' c' \<and> cell_at bd r' c' = Bomb"
  have "{x. ?P x} \<inter> set (neighbourhood n r c) = {x. ?Q x} \<inter> set (eight_neighbours r c)"
  proof (intro equalityI subsetI)
    fix x assume x: "x \<in> {x. ?P x} \<inter> set (neighbourhood n r c)"
    obtain r' c' where xe: "x = (r', c')" by (cases x)
    from x xe neighbourhood_cases [OF assms, of r' c']
    show "x \<in> {x. ?Q x} \<inter> set (eight_neighbours r c)" by auto
  next
    fix x assume x: "x \<in> {x. ?Q x} \<inter> set (eight_neighbours r c)"
    obtain r' c' where xe: "x = (r', c')" by (cases x)
    from x xe eight_in_neighbourhood [OF assms, of r' c'] centre_not_eight [of r c]
    show "x \<in> {x. ?P x} \<inter> set (neighbourhood n r c)" by auto
  qed
  then show ?thesis
    by (simp add: hazards_around_def distinct_length_filter distinct_neighbourhood distinct_eight)
qed

lemma get_num_neighboring_bombs_grid:
  assumes "wf_grid (dimension_size b) (board b)" "in_grid (dimension_size b) r c"
  shows "get_num_neighboring_bombs b r c =
           Inr (int (hazards_around (dimension_size b) (board b) r c))"
proof -
  have "\<forall>(r', c') \<in> set (neighbourhood (dimension_size b) r c). in_grid (dimension_size b) r' c'"
    by (auto dest: neighbourhood_in_grid)
  from count_bombs_grid [OF assms(1) this, of r c 0] neighbours_filter_eq [OF assms(2), of "board b"]
  show ?thesis by (simp add: get_num_neighboring_bombs_def)
qed

lemma hazards_around_cong:
  assumes "\<And>r c. in_grid n r c \<Longrightarrow> (cell_at bd' r c = Bomb) = (cell_at bd r c = Bomb)"
  shows "hazards_around n bd' r c = hazards_around n bd r c"
  unfolding hazards_around_def
  by (rule arg_cong [where f = length], rule filter_cong) (auto simp: assms)

lemma assign_loop_grid:
  assumes "wf_grid (dimension_size b) (board b)"
    and "\<forall>(r, c) \<in> set xs. in_grid (dimension_size b) r c"
  shows "\<exists>b'. assign_loop b xs = Inr b' \<and> dimension_size b' = dimension_size b \<and>
           num_bombs b' = num_bombs b \<and> dug b' = dug b \<and>
           wf_grid (dimension_size b) (board b') \<and>
           (\<forall>r c. in_grid (dimension_size b) r c \<longrightarrow>
              cell_at (board b') r c =
                (if (r, c) \<in> set xs \<and> cell_at (board b) r c \<noteq> Bomb
                 then Num (int (hazards_around (dimension_size b) (board b) r c))
                 else cell_at (board b) r c))"
  using assms
proof (induction xs arbitrary: b)
  case Nil
  then show ?case by simp
next
  case (Cons p xs)
  let ?n = "dimension_size b"
  obtain r c where p: "p = (r, c)" by (cases p)
  from Cons.prems p have g: "in_grid ?n r c" and rest: "\<forall>(r, c) \<in> set xs. in_grid ?n r c"
    by simp_all
  note wf = Cons.prems(1)
  show ?case
  proof (cases "cell_at (board b) r c = Bomb")
    case True
    from Cons.IH [OF wf rest] obtain b' where b': "assign_loop b xs = Inr b'"
      "dimension_size b' = ?n" "num_bombs b' = num_bombs b" "dug b' = dug b"
      "wf_grid ?n (board b')"
      "\<forall>r c. in_grid ?n r c \<longrightarrow> cell_at (board b') r c =
         (if (r, c) \<in> set xs \<and> cell_at (board b) r c \<noteq> Bomb
          then Num (int (hazards_around ?n (board b) r c)) else cell_at (board b) r c)"
      by blast
    from True have "assign_loop b (p # xs) = assign_loop b xs"
      by (simp add: p getitem2_grid [OF wf g])
    with b' True p show ?thesis by auto
  next
    case False
    let ?k = "int (hazards_around ?n (board b) r c)"
    let ?b2 = "b\<lparr>board := put_cell (board b) r c (Num ?k)\<rparr>"
    have wf2: "wf_grid (dimension_size ?b2) (board ?b2)" using wf by (simp add: wf_grid_put)
    have rest2: "\<forall>(r, c) \<in> set xs. in_grid (dimension_size ?b2) r c" using rest by simp
    have bd2: "board ?b2 = put_cell (board b) r c (Num ?k)" by simp
    have cell2: "\<And>r' c'. in_grid ?n r' c' \<Longrightarrow>
        cell_at (board ?b2) r' c' = (if r' = r \<and> c' = c then Num ?k else cell_at (board b) r' c')"
      unfolding bd2 by (rule cell_at_put [OF wf g])
    have bomb2: "\<And>r' c'. in_grid ?n r' c' \<Longrightarrow>
        (cell_at (board ?b2) r' c' = Bomb) = (cell_at (board b) r' c' = Bomb)"
      using False unfolding bd2 by (auto simp: cell_at_put [OF wf g])
    have haz2: "\<And>r' c'. hazards_around ?n (board ?b2) r' c' = hazards_around ?n (board b) r' c'"
      by (rule hazards_around_cong) (rule bomb2)
    from Cons.IH [OF wf2 rest2] obtain b' where b': "assign_loop ?b2 xs = Inr b'"
      "dimension_size b' = ?n" "num_bombs b' = num_bombs b" "dug b' = dug b"
      "wf_grid ?n (board b')"
      and cells: "\<forall>r c. in_grid ?n r c \<longrightarrow> cell_at (board b') r c =
         (if (r, c) \<in> set xs \<and> cell_at (board ?b2) r c \<noteq> Bomb
          then Num (int (hazards_around ?n (board ?b2) r c)) else cell_at (board ?b2) r c)"
      by auto
    from False have "assign_loop b (p # xs) = assign_loop ?b2 xs"
      by (simp add: p getitem2_grid [OF wf g] get_num_neighboring_bombs_grid [OF wf g]
          setitem2_grid [OF wf g])
    moreover have "\<forall>r' c'. in_grid ?n r' c' \<longrightarrow> cell_at (board b') r' c' =
         (if (r', c') \<in> set (p # xs) \<and> cell_at (board b) r' c' \<noteq> Bomb
          then Num (int (hazards_around ?n (board b) r' c')) else cell_at (board b) r' c')"
    proof (intro allI impI)
      fix r' c' assume g': "in_grid ?n r' c'"
      from cells g' have "cell_at (board b') r' c' =
         (if (r', c') \<in> set xs \<and> cell_at (board ?b2) r' c' \<noteq> Bomb
          then Num (int (hazards_around ?n (board ?b2) r' c')) else cell_at (board ?b2) r' c')"
        by blast
      then show "cell_at (board b') r' c' =
         (if (r', c') \<in> set (p # xs) \<and> cell_at (board b) r' c' \<noteq> Bomb
          then Num (int (hazards_around ?n (board b) r' c')) else cell_at (board b) r' c')"
        unfolding haz2 bomb2 [OF g'] cell2 [OF g'] using False by (auto simp: p)
    qed
    ultimately show ?thesis using b' by auto
  qed
qed

lemma plant_step:
  assumes "wf_grid n bd" "1 \<le> n" "0 \<le> loc" "loc < n * n" "p < nb"
  shows "plant_bombs n nb bd p (loc # draws) =
           (if cell_at bd (loc div n) (loc mod n) = Bomb then plant_bombs n nb bd p draws
            else plant_bombs n nb (put_cell bd (loc div n) (loc mod n) Bomb) (p + 1) draws)"
proof -
  note g = loc_row_col [OF assms(2,3,4)]
  from assms(2) have "1 * 1 \<le> n * n" by (intro mult_mono) simp_all
  then have "\<not> n * n - 1 < 0" by simp
  with assms(5) show ?thesis
    by (simp add: Let_def getitem2_grid [OF assms(1) g] setitem2_grid [OF assms(1) g])
qed

lemma card_bomb_set_put:
  assumes "wf_grid n bd" "in_grid n r c" "cell_at bd r c \<noteq> Bomb"
  shows "card (bomb_set n (put_cell bd r c Bomb)) = Suc (card (bomb_set n bd))"
proof -
  from assms(3) have "(r, c) \<notin> bomb_set n bd" by (simp add: bomb_set_def)
  then show ?thesis
    by (simp add: bomb_set_put_bomb [OF assms(1,2)] finite_bomb_set)
qed

lemma plant_bombs_count:
  assumes "1 \<le> n" "\<forall>d \<in> set draws. 0 \<le> d \<and> d < n * n"
    and "wf_grid n bd" "int (card (bomb_set n bd)) = p" "p \<le> nb"
    and "plant_bombs n nb bd p draws = Some res"
  shows "\<exists>bd'. res = Inr bd' \<and> wf_grid n bd' \<and> int (card (bomb_set n bd')) = nb"
  using assms(2-)
proof (induction draws arbitrary: bd p)
  case Nil
  from assms(1) have "1 * 1 \<le> n * n" by (intro mult_mono) simp_all
  with Nil show ?case by (auto split: if_splits)
next
  case (Cons loc draws)
  from Cons.prems(1) have loc: "0 \<le> loc" "loc < n * n"
    and rest: "\<forall>d \<in> set draws. 0 \<le> d \<and> d < n * n" by simp_all
  note g = loc_row_col [OF assms(1) loc]
  show ?case
  proof (cases "p < nb")
    case False
    with Cons.prems show ?thesis by auto
  next
    case True
    note step = plant_step [OF Cons.prems(2) assms(1) loc True, of draws]
    show ?thesis
    proof (cases "cell_at bd (loc div n) (loc mod n) = Bomb")
      case b: True
      with step Cons.prems(5) have "plant_bombs n nb bd p draws = Some res" by simp
      from Cons.IH [OF rest Cons.prems(2,3,4) this] show ?thesis .
    next
      case b: False
      let ?bd1 = "put_cell bd (loc div n) (loc mod n) Bomb"
      from b step Cons.prems(5) have "plant_bombs n nb ?bd1 (p + 1) draws = Some res" by simp
      moreover have "wf_grid n ?bd1" by (rule wf_grid_put [OF Cons.prems(2)])
      moreover from card_bomb_set_put [OF Cons.prems(2) g b] Cons.prems(3)
      have "int (card (bomb_set n ?bd1)) = p + 1" by simp
      moreover from True have "p + 1 \<le> nb" by simp
      ultimately show ?thesis using Cons.IH [OF rest, of ?bd1 "p + 1"] by blast
    qed
  qed
qed

lemma plant_bombs_too_many:
  assumes "1 \<le> n" "n * n < nb" "\<forall>d \<in> set draws. 0 \<le> d \<and> d < n * n"
    and "wf_grid n bd" "int (card (bomb_set n bd)) = p"
  shows "plant_bombs n nb bd p draws = None"
  using assms(3-)
proof (induction draws arbitrary: bd p)
  case Nil
  from assms(1) have "1 * 1 \<le> n * n" by (intro mult_mono) simp_all
  moreover from card_bomb_set_le [of n bd] Nil(3) assms(1) have "p \<le> n * n"
    by (simp add: nat_mult_distrib [symmetric] le_nat_iff) 
  ultimately show ?case using assms(2) by simp
next
  case (Cons loc draws)
  from Cons.prems(1) have loc: "0 \<le> loc" "loc < n * n"
    and rest: "\<forall>d \<in> set draws. 0 \<le> d \<and> d < n * n" by simp_all
  note g = loc_row_col [OF assms(1) loc]
  from card_bomb_set_le [of n bd] Cons.prems(3) assms(1) have "p \<le> n * n"
    by (simp add: nat_mult_distrib [symmetric] le_nat_iff) 
  with assms(2) have lt: "p < nb" by simp
  note step = plant_step [OF Cons.prems(2) assms(1) loc lt, of draws]
  show ?case
  proof (cases "cell_at bd (loc div n) (loc mod n) = Bomb")
    case True
    with step Cons.IH [OF rest Cons.prems(2,3)] show ?thesis by simp
  next
    case False
    let ?bd1 = "put_cell bd (loc div n) (loc mod n) Bomb"
    have "wf_grid n ?bd1" by (rule wf_grid_put [OF Cons.prems(2)])
    moreover from card_bomb_set_put [OF Cons.prems(2) g False] Cons.prems(3)
    have "int (card (bomb_set n ?bd1)) = p + 1" by simp
    ultimately have "plant_bombs n nb ?bd1 (p + 1) draws = None" by (rule Cons.IH [OF rest])
    with False step show ?thesis by simp
  qed
qed

lemma plant_bombs_completes:
  assumes "1 \<le> n" "nb \<le> n * n"
    and "wf_grid n bd" "int (card (bomb_set n bd)) = p" "p \<le> nb"
  shows "\<exists>draws. (\<forall>d \<in> set draws. 0 \<le> d \<and> d < n * n) \<and>
           (\<exists>bd'. plant_bombs n nb bd p draws = Some (Inr bd'))"
  using assms(3-)
proof (induction "nat (nb - p)" arbitrary: bd p)
  case 0
  then have "\<not> p < nb" by simp
  then have "plant_bombs n nb bd p [] = Some (Inr bd)" by simp
  then show ?case by (intro exI [of _ "[]"]) simp
next
  case (Suc m)
  then have lt: "p < nb" by simp
  with assms(2) Suc.prems(2) have "card (bomb_set n bd) < nat n * nat n"
    using assms(1) by (simp add: nat_mult_distrib [symmetric] nat_less_iff)
  then have "card (bomb_set n bd) < card (grid_cells n)" by (simp add: card_grid_cells)
  with bomb_set_subset [of n bd] have "bomb_set n bd \<noteq> grid_cells n" by auto
  with bomb_set_subset [of n bd] obtain r c where rc: "(r, c) \<in> grid_cells n" "(r, c) \<notin> bomb_set n bd"
    by auto
  then have g: "in_grid n r c" and nb': "cell_at bd r c \<noteq> Bomb"
    by (auto simp: grid_cells_iff bomb_set_def)
  let ?loc = "r * n + c"
  note l = loc_of_cell [OF g]
  let ?bd1 = "put_cell bd r c Bomb"
  have "m = nat (nb - (p + 1))" using Suc(2) by simp
  moreover have "wf_grid n ?bd1" by (rule wf_grid_put [OF Suc.prems(1)])
  moreover from card_bomb_set_put [OF Suc.prems(1) g nb'] Suc.prems(2)
  have "int (card (bomb_set n ?bd1)) = p + 1" by simp
  moreover from lt have "p + 1 \<le> nb" by simp
  ultimately obtain draws bd' where d: "\<forall>d \<in> set draws. 0 \<le> d \<and> d < n * n"
    "plant_bombs n nb ?bd1 (p + 1) draws = Some (Inr bd')"
    using Suc(1) [of "p + 1" ?bd1] by blast
  from plant_step [OF Suc.prems(1) assms(1) l(1,2) lt, of draws] nb' d(2) l(3,4)
  have "plant_bombs n nb bd p (?loc # draws) = Some (Inr bd')" by simp
  with d(1) l(1,2) show ?case by (intro exI [of _ "?loc # draws"]) simp
qed

lemma bomb_set_cong:
  assumes "\<And>r c. in_grid n r c \<Longrightarrow> (cell_at bd' r c = Bomb) = (cell_at bd r c = Bomb)"
  shows "bomb_set n bd' = bomb_set n bd"
  using assms by (auto simp: bomb_set_def)

lemma assign_values_ok:
  assumes "wf_grid (dimension_size b0) (board b0)"
  shows "\<exists>b. assign_values_to_board b0 = Inr b \<and> board_ok b \<and>
           dimension_size b = dimension_size b0 \<and> num_bombs b = num_bombs b0 \<and>
           dug b = dug b0 \<and>
           bomb_set (dimension_size b0) (board b) = bomb_set (dimension_size b0) (board b0)"
proof -
  let ?n = "dimension_size b0"
  have "\<forall>(r, c) \<in> set (all_cells ?n). in_grid ?n r c" by (simp add: set_all_cells)
  from assign_loop_grid [OF assms this] obtain b where b: "assign_loop b0 (all_cells ?n) = Inr b"
    "dimension_size b = ?n" "num_bombs b = num_bombs b0" "dug b = dug b0"
    "wf_grid ?n (board b)"
    and cells: "\<And>r c. in_grid ?n r c \<Longrightarrow> cell_at (board b) r c =
       (if cell_at (board b0) r c \<noteq> Bomb
        then Num (int (hazards_around ?n (board b0) r c)) else cell_at (board b0) r c)"
    by (auto simp: set_all_cells)
  have bombs: "\<And>r c. in_grid ?n r c \<Longrightarrow> (cell_at (board b) r c = Bomb) = (cell_at (board b0) r c = Bomb)"
    by (simp add: cells)
  have haz: "\<And>r c. hazards_around ?n (board b) r c = hazards_around ?n (board b0) r c"
    by (rule hazards_around_cong) (rule bombs)
  have "counts_ok b"
    unfolding counts_ok_def list_all_iff b(2)
    by (auto simp: set_all_cells haz cells)
  with b bomb_set_cong [of ?n "board b" "board b0", OF bombs] show ?thesis
    by (auto simp: assign_values_to_board_def board_ok_def)
qed

lemma make_new_board_wf:
  assumes "0 \<le> n" "make_new_board n nb draws = Some (Inr bd)"
  shows "wf_grid n bd"
  using assms plant_bombs_wf [OF _ wf_grid_initial] by (simp add: make_new_board_def)

lemma Board_init_ok:
  assumes "0 \<le> n" "Board_init n nb draws = Some (Inr b)"
  shows "board_ok b \<and> dimension_size b = n \<and> num_bombs b = nb \<and> dug b = {} \<and>
         (\<exists>bd. make_new_board n nb draws = Some (Inr bd) \<and> bomb_set n (board b) = bomb_set n bd)"
proof -
  from assms(2) obtain bd where bd: "make_new_board n nb draws = Some (Inr bd)"
    and a: "assign_values_to_board \<lparr>dimension_size = n, num_bombs = nb, board = bd, dug = {}\<rparr> = Inr b"
    by (auto simp: Board_init_def split: option.splits sum.splits)
  let ?b0 = "\<lparr>dimension_size = n, num_bombs = nb, board = bd, dug = {}\<rparr>"
  from make_new_board_wf [OF assms(1) bd] have "wf_grid (dimension_size ?b0) (board ?b0)" by simp
  from assign_values_ok [OF this] a bd show ?thesis by auto
qed

lemma Board_init_of_board:
  assumes "0 \<le> n" "make_new_board n nb draws = Some (Inr bd)"
  shows "\<exists>b. Board_init n nb draws = Some (Inr b)"
proof -
  let ?b0 = "\<lparr>dimension_size = n, num_bombs = nb, board = bd, dug = {}\<rparr>"
  from make_new_board_wf [OF assms] have "wf_grid (dimension_size ?b0) (board ?b0)" by simp
  from assign_values_ok [OF this] assms(2) show ?thesis by (auto simp: Board_init_def)
qed

text \<open>With no bomb asked for, the loop body never runs and no draw is made.\<close>

lemma Board_init_no_bombs:
  assumes "nb \<le> 0"
  shows "\<exists>b. Board_init n nb draws = Some (Inr b) \<and> hazard_cells b = [] \<and> dug b = {} \<and>
           dimension_size b = n \<and> num_bombs b = nb"
proof -
  let ?bd = "replicate (nat n) (replicate (nat n) NoneCell)"
  from assms have m: "make_new_board n nb draws = Some (Inr ?bd)"
    by (cases draws) (simp_all add: make_new_board_def)
  show ?thesis
  proof (cases "0 \<le> n")
    case True
    from Board_init_of_board [OF True m] obtain b where b: "Board_init n nb draws = Some (Inr b)"
      by blast
    from Board_init_ok [OF True b] m have "dimension_size b = n" "num_bombs b = nb" "dug b = {}"
      "bomb_set n (board b) = {}" by (auto simp: bomb_set_initial)
    with b show ?thesis using set_hazard_cells [of b] by auto
  next
    case False
    then have "all_cells n = []" by (simp add: all_cells_def)
    with m show ?thesis
      by (simp add: Board_init_def assign_values_to_board_def hazard_cells_def)
  qed
qed

lemma Board_init_count:
  assumes "1 \<le> n" "0 \<le> nb" "\<forall>d \<in> set draws. 0 \<le> d \<and> d < n * n"
    and "Board_init n nb draws = Some res"
  shows "\<exists>b. res = Inr b \<and> int (length (hazard_cells b)) = nb \<and> distinct (hazard_cells b) \<and>
           dug b = {} \<and> dimension_size b = n \<and> num_bombs b = nb \<and> board_ok b"
proof -
  let ?bd0 = "replicate (nat n) (replicate (nat n) NoneCell)"
  from assms(1) have n0: "0 \<le> n" by simp
  from assms(4) obtain r0 where r0: "plant_bombs n nb ?bd0 0 draws = Some r0"
    by (auto simp: Board_init_def make_new_board_def split: option.splits)
  have "int (card (bomb_set n ?bd0)) = 0" by (simp add: bomb_set_initial)
  from plant_bombs_count [OF assms(1,3) wf_grid_initial [OF n0] this assms(2) r0]
  obtain bd where bd: "r0 = Inr bd" "wf_grid n bd" "int (card (bomb_set n bd)) = nb" by blast
  with r0 have m: "make_new_board n nb draws = Some (Inr bd)" by (simp add: make_new_board_def)
  from Board_init_of_board [OF n0 m] assms(4) obtain b where b: "res = Inr b"
    "Board_init n nb draws = Some (Inr b)" by auto
  from Board_init_ok [OF n0 b(2)] m bd(3) have "board_ok b" "dimension_size b = n"
    "num_bombs b = nb" "dug b = {}" "int (card (bomb_set n (board b))) = nb" by auto
  with b(1) show ?thesis by (auto simp: length_hazard_cells distinct_hazard_cells)
qed

lemma Board_init_completes:
  assumes "1 \<le> n" "0 \<le> nb" "nb \<le> n * n"
  shows "\<exists>draws. (\<forall>d \<in> set draws. 0 \<le> d \<and> d < n * n) \<and>
           (\<exists>b. Board_init n nb draws = Some (Inr b))"
proof -
  let ?bd0 = "replicate (nat n) (replicate (nat n) NoneCell)"
  from assms(1) have n0: "0 \<le> n" by simp
  have "int (card (bomb_set n ?bd0)) = 0" by (simp add: bomb_set_initial)
  from plant_bombs_completes [OF assms(1,3) wf_grid_initial [OF n0] this assms(2)]
  obtain draws bd where d: "\<forall>d \<in> set draws. 0 \<le> d \<and> d < n * n"
    "make_new_board n nb draws = Some (Inr bd)" by (auto simp: make_new_board_def)
  from Board_init_of_board [OF n0 d(2)] d(1) show ?thesis by blast
qed

lemma Board_init_too_many:
  assumes "1 \<le> n" "n * n < nb" "\<forall>d \<in> set draws. 0 \<le> d \<and> d < n * n"
  shows "Board_init n nb draws = None"
proof -
  let ?bd0 = "replicate (nat n) (replicate (nat n) NoneCell)"
  from assms(1) have n0: "0 \<le> n" by simp
  have "int (card (bomb_set n ?bd0)) = 0" by (simp add: bomb_set_initial)
  from plant_bombs_too_many [OF assms wf_grid_initial [OF n0] this]
  show ?thesis by (simp add: Board_init_def make_new_board_def)
qed

lemma Board_init_no_grid:
  assumes "0 < nb"
  shows "n = 0 \<Longrightarrow> Board_init n nb draws = Some (Inl ValueError)"
    and "n < 0 \<Longrightarrow> Board_init n nb (d # draws) = Some (Inl IndexError)"
proof -
  assume "n = 0"
  with assms show "Board_init n nb draws = Some (Inl ValueError)"
    by (cases draws) (simp_all add: Board_init_def make_new_board_def)
next
  assume n: "n < 0"
  then have "0 < n * n" by (simp add: zero_less_mult_iff)
  then have "\<not> n * n - 1 < 0" by simp
  moreover have "getitem2 ([] :: cell list list) (d div n) (d mod n) = Inl IndexError"
    by (simp add: getitem2_def getitem_def py_index_def)
  moreover from n have "nat n = 0" by simp
  ultimately show "Board_init n nb (d # draws) = Some (Inl IndexError)"
    using assms by (simp add: Board_init_def make_new_board_def Let_def)
qed

section \<open>What a cascade reveals\<close>

lemma dig_frame_ok:
  assumes "dig k b row col = (res, b')" "board_ok b"
  shows "board_ok b'"
  using dig_frame(1) [OF assms(1)] assms(2) board_ok_cong [of b' b] by simp

text \<open>
  On a board as the constructor leaves it, a dig on the grid raises nothing but,
  when the interpreter's limit is met, \<^verbatim>\<open>RecursionError\<close>.
\<close>

lemma dig_no_error:
  "dig k b row col = (res, b') \<Longrightarrow> board_ok b \<Longrightarrow> in_grid (dimension_size b) row col \<Longrightarrow>
     res \<noteq> Inl RecursionError \<Longrightarrow> res = Inr (cell_at (board b) row col \<noteq> Bomb)"
  "dig_loop k b xs = (res', b') \<Longrightarrow> board_ok b \<Longrightarrow>
     \<forall>(r, c) \<in> set xs. in_grid (dimension_size b) r c \<Longrightarrow>
     res' \<noteq> Inl RecursionError \<Longrightarrow> res' = Inr ()"
proof (induction k b row col and k b xs arbitrary: res b' and res' b' rule: dig_induct)
  case (limit b row col)
  then show ?case by simp
next
  case (call k b row col)
  note cell = board_ok_cell [OF call.prems(2,3)]
  from call.prems(1) show ?case
  proof (cases rule: dig_Suc_cases)
    case (zero v r')
    let ?b1 = "b\<lparr>dug := insert (row, col) (dug b)\<rparr>"
    from zero(4) call.prems(4) have nr: "r' \<noteq> Inl RecursionError" by (cases r') auto
    have "r' = Inr ()"
    proof (rule call.IH [OF zero(1,2,3) _ _ nr])
      show "board_ok ?b1" using call.prems(2) board_ok_cong [of ?b1 b] by simp
      show "\<forall>(r, c) \<in> set (neighbourhood (dimension_size b) row col).
          in_grid (dimension_size ?b1) r c"
        by (auto dest: neighbourhood_in_grid)
    qed
    with zero cell show ?thesis by simp
  qed (use cell in auto)
next
  case (empty k b)
  then show ?case by auto
next
  case (step k b r c rest)
  from step.prems(3) have g: "in_grid (dimension_size b) r c"
    and rest: "\<forall>(r, c) \<in> set rest. in_grid (dimension_size b) r c" by simp_all
  from step.prems(1) show ?case
  proof (cases rule: dig_loop_Cons_cases)
    case skip
    from step.IH(1) [OF skip step.prems(2) rest step.prems(4)] show ?thesis .
  next
    case (err e)
    with step.prems(4) have "Inl e \<noteq> (Inl RecursionError :: py_error + bool)" by simp
    from step.IH(2) [OF err(1,2) step.prems(2) g this] show ?thesis by simp
  next
    case (go s b1)
    from dig_frame(1) [OF go(2)] rest dig_frame_ok [OF go(2) step.prems(2)]
    have "board_ok b1" "\<forall>(r, c) \<in> set rest. in_grid (dimension_size b1) r c" by simp_all
    from step.IH(3) [OF go(1,2,3) this step.prems(4)] show ?thesis .
  qed
qed

text \<open>After a loop that ran to its end, every cell of its list is revealed.\<close>

lemma dig_loop_covers:
  "dig_loop k b xs = (Inr u, b') \<Longrightarrow> set xs \<subseteq> dug b'"
proof (induction xs arbitrary: b)
  case Nil
  then show ?case by simp
next
  case (Cons p xs)
  obtain r c where p: "p = (r, c)" by (cases p)
  from Cons.prems [unfolded p] show ?case
  proof (cases rule: dig_loop_Cons_cases)
    case skip
    from dig_frame(2) [OF skip(2)] skip(1) Cons.IH [OF skip(2)] p show ?thesis by auto
  next
    case (err e)
    then show ?thesis by simp
  next
    case (go s b1)
    from dig_adds_Inr [OF go(2)] dig_frame(2) [OF go(3)] Cons.IH [OF go(3)] p
    show ?thesis by auto
  qed
qed

text \<open>
  A cascade from a cell that is no bomb reveals no bomb, however it ends.
\<close>

lemma dig_safe:
  "dig k b row col = (res, b') \<Longrightarrow> board_ok b \<Longrightarrow> in_grid (dimension_size b) row col \<Longrightarrow>
     cell_at (board b) row col \<noteq> Bomb \<Longrightarrow>
     \<forall>(r, c) \<in> dug b' - dug b. in_grid (dimension_size b) r c \<and> cell_at (board b) r c \<noteq> Bomb"
  "dig_loop k b xs = (res', b') \<Longrightarrow> board_ok b \<Longrightarrow>
     \<forall>(r, c) \<in> set xs. in_grid (dimension_size b) r c \<and> cell_at (board b) r c \<noteq> Bomb \<Longrightarrow>
     \<forall>(r, c) \<in> dug b' - dug b. in_grid (dimension_size b) r c \<and> cell_at (board b) r c \<noteq> Bomb"
proof (induction k b row col and k b xs arbitrary: res b' and res' b' rule: dig_induct)
  case (limit b row col)
  then show ?case by simp
next
  case (call k b row col)
  note cell = board_ok_cell [OF call.prems(2,3)]
  from call.prems(1) show ?case
  proof (cases rule: dig_Suc_cases)
    case (zero v r')
    let ?b1 = "b\<lparr>dug := insert (row, col) (dug b)\<rparr>"
    from zero(1) cell(1) have v: "cell_at (board b) row col = Num v" by simp
    have "\<forall>(r, c) \<in> dug b' - dug ?b1.
        in_grid (dimension_size ?b1) r c \<and> cell_at (board ?b1) r c \<noteq> Bomb"
    proof (rule call.IH [OF zero(1,2,3)])
      show "board_ok ?b1" using call.prems(2) board_ok_cong [of ?b1 b] by simp
      show "\<forall>(r, c) \<in> set (neighbourhood (dimension_size b) row col).
          in_grid (dimension_size ?b1) r c \<and> cell_at (board ?b1) r c \<noteq> Bomb"
        using zero_cell_neighbours_safe(1) [OF call.prems(2,3) v zero(2)]
        by (auto dest: neighbourhood_in_grid)
    qed
    with call.prems(3,4) show ?thesis by auto
  qed (use call.prems in auto)
next
  case (empty k b)
  then show ?case by auto
next
  case (step k b r c rest)
  from step.prems(3) have g: "in_grid (dimension_size b) r c" "cell_at (board b) r c \<noteq> Bomb"
    and rest: "\<forall>(r, c) \<in> set rest. in_grid (dimension_size b) r c \<and> cell_at (board b) r c \<noteq> Bomb"
    by simp_all
  from step.prems(1) show ?case
  proof (cases rule: dig_loop_Cons_cases)
    case skip
    from step.IH(1) [OF skip step.prems(2) rest] show ?thesis .
  next
    case (err e)
    from step.IH(2) [OF err(1,2) step.prems(2) g] show ?thesis .
  next
    case (go s b1)
    note f = dig_frame(1) [OF go(2)]
    from f rest dig_frame_ok [OF go(2) step.prems(2)]
    have "board_ok b1" "\<forall>(r, c) \<in> set rest. in_grid (dimension_size b1) r c \<and>
        cell_at (board b1) r c \<noteq> Bomb" by simp_all
    from step.IH(3) [OF go(1,2,3) this] f
    have "\<forall>(r, c) \<in> dug b' - dug b1. in_grid (dimension_size b) r c \<and> cell_at (board b) r c \<noteq> Bomb"
      by simp
    moreover from step.IH(2) [OF go(1,2) step.prems(2) g]
    have "\<forall>(r, c) \<in> dug b1 - dug b. in_grid (dimension_size b) r c \<and> cell_at (board b) r c \<noteq> Bomb" .
    ultimately show ?thesis by blast
  qed
qed

lemma cascade_closed_iff: "cascade_closed b \<longleftrightarrow> closed_except {} b"
  by (simp add: cascade_closed_def closed_except_def list_all_iff)

lemma closed_except_pending:
  assumes "closed_except P b"
  shows "closed_except (insert x P) (b\<lparr>dug := insert x (dug b)\<rparr>)"
  using assms unfolding closed_except_def by auto

lemma closed_except_nonzero:
  assumes "closed_except P b" "cell_at (board b) r c \<noteq> Num 0"
  shows "closed_except P (b\<lparr>dug := insert (r, c) (dug b)\<rparr>)"
  using assms unfolding closed_except_def by auto

lemma closed_except_done:
  assumes "closed_except (insert (r, c) P) b" "set (neighbourhood (dimension_size b) r c) \<subseteq> dug b"
  shows "closed_except P b"
  using assms unfolding closed_except_def by auto

text \<open>
  A dig that raises nothing leaves every finished cascade complete. (A
  \<^verbatim>\<open>RecursionError\<close> leaves a cascade half done, and ends the program.)
\<close>

lemma dig_closed_except:
  "dig k b row col = (res, b') \<Longrightarrow> board_ok b \<Longrightarrow> in_grid (dimension_size b) row col \<Longrightarrow>
     res \<noteq> Inl RecursionError \<Longrightarrow> closed_except P b \<Longrightarrow> closed_except P b'"
  "dig_loop k b xs = (res', b') \<Longrightarrow> board_ok b \<Longrightarrow>
     \<forall>(r, c) \<in> set xs. in_grid (dimension_size b) r c \<Longrightarrow>
     res' \<noteq> Inl RecursionError \<Longrightarrow> closed_except P b \<Longrightarrow> closed_except P b'"
proof (induction k b row col and k b xs arbitrary: res b' P and res' b' P rule: dig_induct)
  case (limit b row col)
  then show ?case by simp
next
  case (call k b row col)
  note cell = board_ok_cell [OF call.prems(2,3)]
  let ?b1 = "b\<lparr>dug := insert (row, col) (dug b)\<rparr>"
  from call.prems(1) show ?case
  proof (cases rule: dig_Suc_cases)
    case (err e)
    with cell show ?thesis by simp
  next
    case bomb
    with cell have "cell_at (board b) row col \<noteq> Num 0" by simp
    from closed_except_nonzero [OF call.prems(5) this] bomb show ?thesis by simp
  next
    case none
    with cell show ?thesis by auto
  next
    case (pos v)
    with cell(1) have "cell_at (board b) row col = Num v" by simp
    with pos(2) have "cell_at (board b) row col \<noteq> Num 0" by simp
    from closed_except_nonzero [OF call.prems(5) this] pos show ?thesis by simp
  next
    case (zero v r')
    from zero(4) call.prems(4) have nr: "r' \<noteq> Inl RecursionError" by (cases r') auto
    have ok1: "board_ok ?b1" using call.prems(2) board_ok_cong [of ?b1 b] by simp
    have nb: "\<forall>(r, c) \<in> set (neighbourhood (dimension_size b) row col).
          in_grid (dimension_size ?b1) r c"
      by (auto dest: neighbourhood_in_grid)
    note loop = zero(3)
    have "closed_except (insert (row, col) P) b'"
      by (rule call.IH [OF zero(1,2,3) ok1 nb nr])
         (rule closed_except_pending [OF call.prems(5)])
    moreover from dig_no_error(2) [OF loop ok1 nb nr] have "r' = Inr ()" .
    with loop have "set (neighbourhood (dimension_size b) row col) \<subseteq> dug b'"
      by (auto dest!: dig_loop_covers)
    with dig_frame(2) [OF loop]
    have "set (neighbourhood (dimension_size b') row col) \<subseteq> dug b'" by simp
    ultimately show ?thesis by (rule closed_except_done)
  qed
next
  case (empty k b)
  then show ?case by auto
next
  case (step k b r c rest)
  from step.prems(3) have g: "in_grid (dimension_size b) r c"
    and rest: "\<forall>(r, c) \<in> set rest. in_grid (dimension_size b) r c" by simp_all
  from step.prems(1) show ?case
  proof (cases rule: dig_loop_Cons_cases)
    case skip
    from step.IH(1) [OF skip step.prems(2) rest step.prems(4,5)] show ?thesis .
  next
    case (err e)
    with step.prems(4) have "Inl e \<noteq> (Inl RecursionError :: py_error + bool)" by simp
    from step.IH(2) [OF err(1,2) step.prems(2) g this step.prems(5)] show ?thesis .
  next
    case (go s b1)
    from dig_frame(1) [OF go(2)] rest dig_frame_ok [OF go(2) step.prems(2)]
    have 1: "board_ok b1" "\<forall>(r, c) \<in> set rest. in_grid (dimension_size b1) r c" by simp_all
    from step.IH(2) [OF go(1,2) step.prems(2) g _ step.prems(5)]
    have "closed_except P b1" by simp
    from step.IH(3) [OF go(1,2,3) 1 step.prems(4) this] show ?thesis .
  qed
qed

lemma dig_cascade_closed:
  assumes "dig k b row col = (res, b')" "board_ok b" "in_grid (dimension_size b) row col"
    and "res \<noteq> Inl RecursionError" and "cascade_closed b"
  shows "cascade_closed b'"
  using dig_closed_except(1) [OF assms(1-4)] assms(5) by (simp add: cascade_closed_iff)

lemma cascade_closedD:
  assumes "cascade_closed b" "in_grid (dimension_size b) r c" "(r, c) \<in> dug b"
    and "cell_at (board b) r c = Num 0"
  shows "set (neighbourhood (dimension_size b) r c) \<subseteq> dug b"
proof -
  from assms(2) have "(r, c) \<in> set (all_cells (dimension_size b))" by (simp add: set_all_cells)
  with assms(1,3,4) show ?thesis unfolding cascade_closed_def list_all_iff by blast
qed

lemma dig_loop_all_dug: "set xs \<subseteq> dug b \<Longrightarrow> dig_loop k b xs = (Inr (), b)"
  by (induction xs) auto

section \<open>Termination, safety of the cascade, digging twice\<close>

text \<open>
  The example of the specification: the constructor builds the three-by-three board
  from the draw \<open>8\<close>, and one \<^verbatim>\<open>dig(0, 0)\<close> reveals every cell but the bomb and
  wins the game.
\<close>

lemma Board_init_cascade_board: "Board_init 3 1 [8] = Some (Inr cascade_board)"
  by code_simp

lemma play_cascade_board: "play 9 3 1 [8] [(0, 0)] = Some (Inr (Won, cascade_board_dug))"
  by code_simp

lemma dig_returns:
  assumes "undug b < k"
  shows "\<exists>res b'. dig k b row col = (res, b') \<and> res \<noteq> Inl RecursionError \<and>
           dug b \<subseteq> dug b' \<and> dig (Suc (undug b)) b row col = (res, b')"
proof -
  obtain res b' where d: "dig (Suc (undug b)) b row col = (res, b')"
    by (cases "dig (Suc (undug b)) b row col")
  have "undug (b\<lparr>dug := insert (row, col) (dug b)\<rparr>) < Suc (undug b)"
    using undug_insert_le [where b = b and r = row and c = col] by simp
  from dig_deep_enough(1) [OF d this] have nr: "res \<noteq> Inl RecursionError" .
  from assms have "Suc (undug b) \<le> k" by simp
  from dig_fuel_mono(1) [OF d nr this] have "dig k b row col = (res, b')" .
  with d nr dig_frame(1) [OF d] show ?thesis by blast
qed

text \<open>
  Claim C6. For every board, whatever its state, and every coordinate, the recursion
  of \<^verbatim>\<open>dig\<close> comes to an end by itself: once the interpreter allows more nested
  calls than there are cells of the grid not revealed yet, \<^verbatim>\<open>dig\<close> returns without
  a \<^verbatim>\<open>RecursionError\<close>, with the same result whatever the number allowed above
  that. The loop of \<^verbatim>\<open>dig\<close> only calls \<^verbatim>\<open>dig\<close> on cells that are not in
  \<open>dug\<close>, every call adds its cell to \<open>dug\<close>, \<open>dug\<close> only grows, and the grid
  has finitely many cells. (With fewer calls allowed the call ends too, by the
  exception.)
\<close>

theorem dig_terminates:
  assumes "undug b < k"
  shows "\<exists>res b'. dig k b row col = (res, b') \<and> res \<noteq> Inl RecursionError \<and>
           dug b \<subseteq> dug b' \<and> dig (Suc (undug b)) b row col = (res, b')"
  using assms by (rule dig_returns)

text \<open>
  On the three-by-three board the dig at \<open>(0, 0)\<close> cascades over eight cells; it
  needs nested calls, and with ten allowed it returns.
\<close>

theorem dig_terminates_witness:
  "undug cascade_board < 10 \<and>
   (\<exists>res b'. dig 10 cascade_board 0 0 = (res, b') \<and> res \<noteq> Inl RecursionError \<and>
      dug cascade_board \<subseteq> dug b' \<and>
      dig (Suc (undug cascade_board)) cascade_board 0 0 = (res, b')) \<and>
   dig 10 cascade_board 0 0 = (Inr True, cascade_board_dug) \<and>
   fst (dig 2 cascade_board 0 0) = Inl RecursionError"
proof -
  have h: "undug cascade_board < 10" "dig 10 cascade_board 0 0 = (Inr True, cascade_board_dug)"
    "fst (dig 2 cascade_board 0 0) = Inl RecursionError"
    by code_simp+
  from dig_terminates [OF h(1), of 0 0] h show ?thesis by blast
qed



text \<open>
  Claim C2, as the code has it. \<^verbatim>\<open>dig\<close> returns a Boolean and has no result that
  says that the cell was revealed before. On a board as the constructor leaves it, in
  a state where every finished cascade is complete (\<open>cascade_closed\<close>, which the
  empty \<open>dug\<close> satisfies and every \<^verbatim>\<open>dig\<close> on the grid that returns preserves,
  lemma \<open>dig_cascade_closed\<close>), \<^verbatim>\<open>dig\<close> at a revealed cell of the grid changes nothing
  in the state, so it does not cascade again, and returns what a first dig returns:
  \<^verbatim>\<open>True\<close> when the cell holds no bomb, \<^verbatim>\<open>False\<close> when it does.
\<close>

theorem dig_again_unchanged:
  assumes "board_ok b" and "cascade_closed b" and "in_grid (dimension_size b) row col"
    and "(row, col) \<in> dug b"
  shows "dig (Suc k) b row col = (Inr (cell_at (board b) row col \<noteq> Bomb), b)"
proof -
  note cell = board_ok_cell [OF assms(1,3)]
  from assms(4) have b1: "b\<lparr>dug := insert (row, col) (dug b)\<rparr> = b"
    by (simp add: insert_absorb)
  from cell(2) show ?thesis
  proof
    assume "cell_at (board b) row col = Bomb"
    with cell(1) b1 show ?thesis by (simp add: Let_def)
  next
    let ?h = "hazards_around (dimension_size b) (board b) row col"
    assume v: "cell_at (board b) row col = Num (int ?h)"
    show ?thesis
    proof (cases "0 < int ?h")
      case True
      with v cell(1) b1 show ?thesis by (simp add: Let_def)
    next
      case False
      with v have "cell_at (board b) row col = Num 0" by simp
      from cascade_closedD [OF assms(2,3,4) this]
      have "dig_loop k b (neighbourhood (dimension_size b) row col) = (Inr (), b)"
        by (rule dig_loop_all_dug)
      with v False cell(1) b1 show ?thesis by (simp add: Let_def)
    qed
  qed
qed

theorem dig_again_unchanged_witness:
  "board_ok cascade_board_dug \<and> cascade_closed cascade_board_dug \<and>
   in_grid (dimension_size cascade_board_dug) 0 0 \<and> (0, 0) \<in> dug cascade_board_dug \<and>
   cell_at (board cascade_board_dug) 0 0 = Num 0 \<and>
   dig (Suc 0) cascade_board_dug 0 0 =
     (Inr (cell_at (board cascade_board_dug) 0 0 \<noteq> Bomb), cascade_board_dug)"
proof -
  have h: "board_ok cascade_board_dug" "cascade_closed cascade_board_dug"
    "in_grid (dimension_size cascade_board_dug) 0 0" "(0, 0) \<in> dug cascade_board_dug"
    "cell_at (board cascade_board_dug) 0 0 = Num 0"
    by code_simp+
  from dig_again_unchanged [OF h(1-4), of 0] h show ?thesis by blast
qed

text \<open>
  Against claim C2 as stated: on the three-by-three board, \<^verbatim>\<open>dig(0, 0)\<close> cascades
  and returns \<^verbatim>\<open>True\<close>; the second \<^verbatim>\<open>dig(0, 0)\<close> returns \<^verbatim>\<open>True\<close> again,
  the very value the first one returned, not a value of its own for a cell that was
  revealed before.
\<close>

theorem dig_again_returns_True:
  "dig 9 cascade_board 0 0 = (Inr True, cascade_board_dug) \<and>
   dig 9 cascade_board_dug 0 0 = (Inr True, cascade_board_dug)"
  by code_simp

section \<open>What the constructor returns\<close>

lemma Board_init_demo: "Board_init 2 1 [3] = Some (Inr demo_board)"
  by code_simp

text \<open>
  Claim C4. On every board the constructor returns, whatever the dimension, the bomb
  count asked for and the draws, every cell of the grid that is not a bomb holds the
  number of bombs among the eight positions around it that lie on the grid
  (\<open>hazards_around\<close>, worded from the specification, against the double loop of
  \<^verbatim>\<open>get_num_neighboring_bombs\<close>).
\<close>

theorem adjacent_counts_exact:
  assumes "Board_init n nb draws = Some (Inr b)"
    and "in_grid n r c" and "cell_at (board b) r c \<noteq> Bomb"
  shows "dimension_size b = n \<and>
         cell_at (board b) r c = Num (int (hazards_around n (board b) r c))"
proof -
  from assms(2) have "0 \<le> n" by (simp add: in_grid_def)
  from Board_init_ok [OF this assms(1)] have ok: "board_ok b" and n: "dimension_size b = n"
    by simp_all
  from board_ok_cell(2) [OF ok] assms(2,3) n show ?thesis by auto
qed

theorem adjacent_counts_exact_witness:
  "Board_init 2 1 [3] = Some (Inr demo_board) \<and> in_grid 2 0 1 \<and>
   cell_at (board demo_board) 0 1 \<noteq> Bomb \<and> dimension_size demo_board = 2 \<and>
   cell_at (board demo_board) 0 1 = Num (int (hazards_around 2 (board demo_board) 0 1)) \<and>
   hazards_around 2 (board demo_board) 0 1 = 1"
proof -
  have h: "Board_init 2 1 [3] = Some (Inr demo_board)" "in_grid 2 0 1"
    "cell_at (board demo_board) 0 1 \<noteq> Bomb" "hazards_around 2 (board demo_board) 0 1 = 1"
    by code_simp+
  from adjacent_counts_exact [OF h(1-3)] h show ?thesis by blast
qed

text \<open>
  Claim C7. For a dimension \<open>n \<ge> 1\<close> and a bomb count \<open>0 \<le> nb < n\<^sup>2\<close>: the
  constructor finishes for some sequence of draws of \<^verbatim>\<open>randint(0, n**2 - 1)\<close>; and
  whenever it finishes on draws in that range, it returns a board (it raises nothing)
  with exactly \<open>nb\<close> cells holding a bomb, at distinct positions, and with \<open>dug\<close>
  empty. (On draws that keep hitting planted cells the loop goes on; no finite list
  of draws is rejected.)
\<close>

theorem constructed_hazard_count:
  assumes "1 \<le> n" and "0 \<le> nb" and "nb < n * n"
  shows "(\<exists>draws. (\<forall>d \<in> set draws. 0 \<le> d \<and> d < n * n) \<and> Board_init n nb draws \<noteq> None) \<and>
         (\<forall>draws res. (\<forall>d \<in> set draws. 0 \<le> d \<and> d < n * n) \<and>
              Board_init n nb draws = Some res \<longrightarrow>
            (\<exists>b. res = Inr b \<and> int (length (hazard_cells b)) = nb \<and>
                 distinct (hazard_cells b) \<and> dug b = {}))"
proof (intro conjI allI impI)
  from assms(3) have "nb \<le> n * n" by simp
  from Board_init_completes [OF assms(1,2) this]
  show "\<exists>draws. (\<forall>d \<in> set draws. 0 \<le> d \<and> d < n * n) \<and> Board_init n nb draws \<noteq> None"
    by fastforce
next
  fix draws res
  assume "(\<forall>d \<in> set draws. 0 \<le> d \<and> d < n * n) \<and> Board_init n nb draws = Some res"
  then have "\<forall>d \<in> set draws. 0 \<le> d \<and> d < n * n" "Board_init n nb draws = Some res"
    by simp_all
  from Board_init_count [OF assms(1,2) this]
  show "\<exists>b. res = Inr b \<and> int (length (hazard_cells b)) = nb \<and>
          distinct (hazard_cells b) \<and> dug b = {}"
    by blast
qed

theorem constructed_hazard_count_witness:
  "(1::int) \<le> 2 \<and> (0::int) \<le> 1 \<and> (1::int) < 2 * 2 \<and>
   Board_init 2 1 [3] = Some (Inr demo_board) \<and>
   int (length (hazard_cells demo_board)) = 1 \<and> distinct (hazard_cells demo_board) \<and>
   dug demo_board = {}"
proof -
  have h: "(1::int) \<le> 2" "(0::int) \<le> 1" "(1::int) < 2 * 2" by simp_all
  have d: "\<forall>d \<in> set [3::int]. 0 \<le> d \<and> d < 2 * 2" by simp
  have i: "Board_init 2 1 [3] = Some (Inr demo_board)" by (rule Board_init_demo)
  from constructed_hazard_count [OF h] d i
  have "\<exists>b. Inr demo_board = (Inr b :: py_error + Board) \<and> int (length (hazard_cells b)) = 1 \<and>
          distinct (hazard_cells b) \<and> dug b = {}"
    by blast
  with h i show ?thesis by simp
qed

text \<open>
  Against claim C3 as stated: the constructor checks nothing. A dimension of \<open>0\<close>
  with no bomb, a negative bomb count, and a bomb count equal to the number of cells
  each give a board.
\<close>

theorem Board_init_accepts_invalid:
  "Board_init 0 0 [] = Some (Inr \<lparr>dimension_size = 0, num_bombs = 0, board = [], dug = {}\<rparr>) \<and>
   Board_init 2 (- 1) [] =
     Some (Inr \<lparr>dimension_size = 2, num_bombs = - 1,
                board = [[Num 0, Num 0], [Num 0, Num 0]], dug = {}\<rparr>) \<and>
   Board_init 2 4 [0, 1, 2, 3] =
     Some (Inr \<lparr>dimension_size = 2, num_bombs = 4,
                board = [[Bomb, Bomb], [Bomb, Bomb]], dug = {}\<rparr>)"
  by code_simp

text \<open>
  Claim C3, as the code has it. No configuration is rejected as invalid. With a bomb
  count \<open>nb \<le> 0\<close>, whatever the dimension, the constructor returns a board without
  bombs and draws nothing. With \<open>nb > 0\<close> and a dimension \<open>0\<close>, \<^verbatim>\<open>randint\<close>
  raises \<^verbatim>\<open>ValueError\<close>; with \<open>nb > 0\<close> and a negative dimension, the first
  draw runs into \<^verbatim>\<open>IndexError\<close> on the empty board. With \<open>nb = n\<^sup>2\<close> and
  \<open>n \<ge> 1\<close>, some draws give a board whose cells all hold a bomb. With
  \<open>nb > n\<^sup>2\<close> and \<open>n \<ge> 1\<close>, the loop never finishes, whatever the draws: only
  here and in the two raising cases does the caller get no board.
\<close>

theorem Board_init_unvalidated:
  "(nb \<le> 0 \<longrightarrow>
      (\<exists>b. Board_init n nb draws = Some (Inr b) \<and> hazard_cells b = [] \<and> dug b = {} \<and>
           dimension_size b = n \<and> num_bombs b = nb)) \<and>
   (0 < nb \<and> n = 0 \<longrightarrow> Board_init n nb draws = Some (Inl ValueError)) \<and>
   (0 < nb \<and> n < 0 \<longrightarrow> Board_init n nb (d # draws) = Some (Inl IndexError)) \<and>
   (1 \<le> n \<and> nb = n * n \<longrightarrow>
      (\<exists>ds b. (\<forall>d \<in> set ds. 0 \<le> d \<and> d < n * n) \<and> Board_init n nb ds = Some (Inr b) \<and>
           int (length (hazard_cells b)) = n * n)) \<and>
   (1 \<le> n \<and> n * n < nb \<and> (\<forall>d \<in> set draws. 0 \<le> d \<and> d < n * n) \<longrightarrow>
      Board_init n nb draws = None)"
proof (intro conjI impI)
  assume "nb \<le> 0"
  then show "\<exists>b. Board_init n nb draws = Some (Inr b) \<and> hazard_cells b = [] \<and> dug b = {} \<and>
           dimension_size b = n \<and> num_bombs b = nb"
    by (rule Board_init_no_bombs)
next
  assume "0 < nb \<and> n = 0"
  then show "Board_init n nb draws = Some (Inl ValueError)"
    using Board_init_no_grid(1) by blast
next
  assume "0 < nb \<and> n < 0"
  then show "Board_init n nb (d # draws) = Some (Inl IndexError)"
    using Board_init_no_grid(2) by blast
next
  assume a: "1 \<le> n \<and> nb = n * n"
  then have n: "1 \<le> n" and nb: "0 \<le> nb" "nb \<le> n * n" by simp_all
  from Board_init_completes [OF n nb] obtain ds b where
    ds: "\<forall>d \<in> set ds. 0 \<le> d \<and> d < n * n" "Board_init n nb ds = Some (Inr b)" by blast
  from Board_init_count [OF n nb(1) ds] a have "int (length (hazard_cells b)) = n * n" by auto
  with ds show "\<exists>ds b. (\<forall>d \<in> set ds. 0 \<le> d \<and> d < n * n) \<and> Board_init n nb ds = Some (Inr b) \<and>
           int (length (hazard_cells b)) = n * n"
    by blast
next
  assume "1 \<le> n \<and> n * n < nb \<and> (\<forall>d \<in> set draws. 0 \<le> d \<and> d < n * n)"
  then show "Board_init n nb draws = None"
    using Board_init_too_many by blast
qed

theorem Board_init_unvalidated_witness:
  "(- 1 :: int) \<le> 0 \<and>
   (\<exists>b. Board_init 2 (- 1) [] = Some (Inr b) \<and> hazard_cells b = [] \<and> dug b = {} \<and>
        dimension_size b = 2 \<and> num_bombs b = - 1) \<and>
   (0 :: int) < 1 \<and> Board_init 0 1 [] = Some (Inl ValueError) \<and>
   (- 2 :: int) < 0 \<and> Board_init (- 2) 1 [0] = Some (Inl IndexError) \<and>
   (1 :: int) \<le> 2 \<and> (4 :: int) = 2 * 2 \<and>
   (\<exists>ds b. (\<forall>d \<in> set ds. 0 \<le> d \<and> d < 2 * 2) \<and> Board_init 2 4 ds = Some (Inr b) \<and>
        int (length (hazard_cells b)) = 2 * 2) \<and>
   (2 :: int) * 2 < 5 \<and> list_all (\<lambda>d. 0 \<le> d \<and> d < 2 * 2) [0, 1, 2, 3, 0 :: int] \<and>
   Board_init 2 5 [0, 1, 2, 3, 0] = None"
proof -
  have 1: "\<exists>b. Board_init 2 (- 1) [] = Some (Inr b) \<and> hazard_cells b = [] \<and> dug b = {} \<and>
        dimension_size b = 2 \<and> num_bombs b = - 1"
    using Board_init_unvalidated [of "- 1" 2 "[]" 0] by simp
  have 2: "Board_init 0 1 [] = Some (Inl ValueError)"
    using Board_init_unvalidated [of 1 0 "[]" 0] by simp
  have 3: "Board_init (- 2) 1 [0] = Some (Inl IndexError)"
    using Board_init_unvalidated [of 1 "- 2" "[]" 0] by simp
  have 4: "\<exists>ds b. (\<forall>d \<in> set ds. 0 \<le> d \<and> d < 2 * 2) \<and> Board_init 2 4 ds = Some (Inr b) \<and>
        int (length (hazard_cells b)) = 2 * 2"
    using Board_init_unvalidated [of 4 2 "[]" 0] by simp
  have 5: "Board_init 2 5 [0, 1, 2, 3, 0] = None"
    using Board_init_unvalidated [of 5 2 "[0, 1, 2, 3, 0]" 0] by simp
  from 1 2 3 4 5 show ?thesis by simp
qed

section \<open>A board without hazards\<close>

lemma line_fill:
  fixes x0 :: int
  assumes "0 \<le> x0" "x0 < n" "P x0"
    and up: "\<And>x. 0 \<le> x \<Longrightarrow> x + 1 < n \<Longrightarrow> P x \<Longrightarrow> P (x + 1)"
    and down: "\<And>x. 0 < x \<Longrightarrow> x < n \<Longrightarrow> P x \<Longrightarrow> P (x - 1)"
    and x: "0 \<le> x" "x < n"
  shows "P x"
proof (cases "x0 \<le> x")
  case True
  then have "x < n \<longrightarrow> P x"
  proof (induction x rule: int_ge_induct)
    case base
    from assms(3) show ?case by simp
  next
    case (step i)
    show ?case
    proof
      assume "i + 1 < n"
      with step assms(1) show "P (i + 1)" by (intro up) simp_all
    qed
  qed
  with x show ?thesis by simp
next
  case False
  then have "x \<le> x0" by simp
  then have "0 \<le> x \<longrightarrow> P x"
  proof (induction x rule: int_le_induct)
    case base
    from assms(3) show ?case by simp
  next
    case (step i)
    show ?case
    proof
      assume "0 \<le> i - 1"
      with step assms(2) show "P (i - 1)" by (intro down) simp_all
    qed
  qed
  with x show ?thesis by simp
qed

lemma flood_fills_grid:
  assumes closed: "\<And>r c. in_grid n r c \<Longrightarrow> (r, c) \<in> S \<Longrightarrow> set (neighbourhood n r c) \<subseteq> S"
    and start: "in_grid n r0 c0" "(r0, c0) \<in> S"
    and goal: "in_grid n r c"
  shows "(r, c) \<in> S"
proof -
  from start(1) goal have b: "0 \<le> r0" "r0 < n" "0 \<le> c0" "c0 < n" "0 \<le> r" "r < n" "0 \<le> c" "c < n"
    by (simp_all add: in_grid_def)
  have row: "(r, c0) \<in> S"
  proof (rule line_fill [where P = "\<lambda>x. (x, c0) \<in> S" and ?x0.0 = r0 and n = n])
    fix x assume x: "0 \<le> x" "x + 1 < n" "(x, c0) \<in> S"
    with b have "in_grid n x c0" by (simp add: in_grid_def)
    from closed [OF this x(3)] x(1,2) b show "(x + 1, c0) \<in> S"
      by (auto simp: set_neighbourhood)
  next
    fix x assume x: "0 < x" "x < n" "(x, c0) \<in> S"
    with b have "in_grid n x c0" by (simp add: in_grid_def)
    from closed [OF this x(3)] x(1,2) b show "(x - 1, c0) \<in> S"
      by (auto simp: set_neighbourhood)
  qed (use b start(2) in simp_all)
  show ?thesis
  proof (rule line_fill [where P = "\<lambda>x. (r, x) \<in> S" and ?x0.0 = c0 and n = n])
    fix x assume x: "0 \<le> x" "x + 1 < n" "(r, x) \<in> S"
    with b have "in_grid n r x" by (simp add: in_grid_def)
    from closed [OF this x(3)] x(1,2) b show "(r, x + 1) \<in> S"
      by (auto simp: set_neighbourhood)
  next
    fix x assume x: "0 < x" "x < n" "(r, x) \<in> S"
    with b have "in_grid n r x" by (simp add: in_grid_def)
    from closed [OF this x(3)] x(1,2) b show "(r, x - 1) \<in> S"
      by (auto simp: set_neighbourhood)
  qed (use b row in simp_all)
qed

lemma hazards_around_no_bombs:
  assumes "bomb_set n bd = {}"
  shows "hazards_around n bd r c = 0"
proof -
  from assms have "\<And>r c. \<not> (in_grid n r c \<and> cell_at bd r c = Bomb)"
    by (auto simp: bomb_set_def)
  then show ?thesis by (auto simp: hazards_around_def filter_empty_conv)
qed

text \<open>With no bomb asked for, the constructor returns the blank board.\<close>

lemma Board_init_blank:
  assumes "0 \<le> n"
  shows "Board_init n 0 draws = Some (Inr (blank_board n))"
proof -
  from Board_init_no_bombs [of 0 n draws] obtain b where
    b: "Board_init n 0 draws = Some (Inr b)" "hazard_cells b = []" "dug b = {}"
      "dimension_size b = n" "num_bombs b = 0" by auto
  from Board_init_ok [OF assms b(1)] have ok: "board_ok b" by simp
  then have wf: "wf_grid n (board b)" by (simp add: board_ok_def b(4))
  from b(2) set_hazard_cells [of b] b(4) have nob: "bomb_set n (board b) = {}" by simp
  have zero: "\<And>r c. in_grid n r c \<Longrightarrow> cell_at (board b) r c = Num 0"
    using board_ok_cell(2) [OF ok] nob hazards_around_no_bombs [OF nob]
    by (auto simp: b(4) bomb_set_def)
  have "board b = replicate (nat n) (replicate (nat n) (Num 0))"
  proof (rule nth_equalityI)
    show "length (board b) = length (replicate (nat n) (replicate (nat n) (Num 0)))"
      using wf by (simp add: wf_grid_def)
  next
    fix i assume "i < length (board b)"
    with wf have i: "i < nat n" by (simp add: wf_grid_def)
    then have ri: "0 \<le> int i" "int i < n" by simp_all
    have "board b ! i = replicate (nat n) (Num 0)"
    proof (rule nth_equalityI)
      show "length (board b ! i) = length (replicate (nat n) (Num 0))"
        using wf_grid_row [OF wf ri] by simp
    next
      fix j assume "j < length (board b ! i)"
      with wf_grid_row [OF wf ri] have j: "j < nat n" by simp
      with i have "int i < n" "int j < n" by linarith+
      then have "in_grid n (int i) (int j)" by (simp add: in_grid_def)
      from zero [OF this] j show "board b ! i ! j = replicate (nat n) (Num 0) ! j"
        by (simp add: cell_at_def)
    qed
    with i show "board b ! i = replicate (nat n) (replicate (nat n) (Num 0)) ! i" by simp
  qed
  with b(3,4,5) have "b = blank_board n"
    by (intro Board.equality) (simp_all add: blank_board_def)
  with b(1) show ?thesis by simp
qed

lemma blank_board_ok: "0 \<le> n \<Longrightarrow> board_ok (blank_board n)"
  using Board_init_ok [OF _ Board_init_blank, of n "[]"] by simp

lemma blank_board_cell: "in_grid n r c \<Longrightarrow> cell_at (board (blank_board n)) r c = Num 0"
  by (simp add: blank_board_def cell_at_def in_grid_def)

lemma blank_board_fields:
  "dimension_size (blank_board n) = n" "num_bombs (blank_board n) = 0" "dug (blank_board n) = {}"
  by (simp_all add: blank_board_def)

text \<open>
  With enough nested calls allowed, one dig reveals the whole blank board.
\<close>

lemma blank_board_flood:
  assumes "in_grid n row col" and "nat (n * n) < k"
  shows "dig k (blank_board n) row col = (Inr True, (blank_board n)\<lparr>dug := grid_cells n\<rparr>)"
proof -
  let ?b = "blank_board n"
  from assms(1) have n0: "0 \<le> n" by (simp add: in_grid_def)
  note ok = blank_board_ok [OF n0]
  note fld = blank_board_fields [of n]
  from undug_le_grid [of ?b] n0 assms(2) have "undug ?b < k"
    by (simp add: fld nat_mult_distrib)
  from dig_returns [OF this] obtain res b' where d: "dig k ?b row col = (res, b')"
    and nr: "res \<noteq> Inl RecursionError" by blast
  have g: "in_grid (dimension_size ?b) row col" using assms(1) by (simp add: fld)
  from dig_no_error(1) [OF d ok g nr] blank_board_cell [OF assms(1)]
  have res: "res = Inr True" by simp
  note f = dig_frame(1) [OF d]
  have "cascade_closed ?b" by (simp add: cascade_closed_def fld list_all_iff)
  from dig_cascade_closed [OF d ok g nr this] have cl: "cascade_closed b'" .
  have sub: "dug b' \<subseteq> grid_cells n"
    using dig_safe(1) [OF d ok g] blank_board_cell [OF assms(1)]
    by (auto simp: grid_cells_iff fld)
  have "grid_cells n \<subseteq> dug b'"
  proof
    fix p assume "p \<in> grid_cells n"
    then obtain r c where p: "p = (r, c)" "in_grid n r c"
      by (cases p) (auto simp: grid_cells_iff)
    have "(r, c) \<in> dug b'"
    proof (rule flood_fills_grid [where n = n and ?r0.0 = row and ?c0.0 = col])
      fix r c assume rc: "in_grid n r c" "(r, c) \<in> dug b'"
      from blank_board_cell [OF rc(1)] f have "cell_at (board b') r c = Num 0" by simp
      from cascade_closedD [OF cl _ rc(2) this] rc(1) f
      show "set (neighbourhood n r c) \<subseteq> dug b'" by (simp add: fld)
    next
      from dig_adds_Inr [OF d [unfolded res]] show "(row, col) \<in> dug b'" .
    qed (use assms(1) p(2) in simp_all)
    with p show "p \<in> dug b'" by simp
  qed
  with sub have "dug b' = grid_cells n" by blast
  with f have "b' = ?b\<lparr>dug := grid_cells n\<rparr>" by (intro Board.equality) simp_all
  with d res show ?thesis by simp
qed

text \<open>
  With fewer nested calls allowed than the board has columns, the dig at the corner
  \<open>(0, 0)\<close> of the blank board raises \<^verbatim>\<open>RecursionError\<close>: from \<open>(0, c)\<close> the loop
  skips \<open>(0, c - 1)\<close> and \<open>(0, c)\<close>, which are revealed, and calls \<^verbatim>\<open>dig\<close> at
  \<open>(0, c + 1)\<close>, one frame deeper per column. Nothing outside the first row is
  revealed by then.
\<close>

lemma neighbourhood_first_row:
  assumes "0 \<le> c" "c + 1 < n"
  shows "neighbourhood n 0 c =
           (if c = 0 then [(0, 0), (0, 1), (1, 0), (1, 1)]
            else [(0, c - 1), (0, c), (0, c + 1), (1, c - 1), (1, c), (1, c + 1)])"
proof -
  from assms have r: "[max 0 (0 - 1)..min (n - 1) (0 + 1)] = [0, 1 :: int]"
    by (simp add: upto_rec1)
  show ?thesis
  proof (cases "c = 0")
    case True
    with assms have "[max 0 (c - 1)..min (n - 1) (c + 1)] = [0, 1]" by (simp add: upto_rec1)
    with r True show ?thesis by (simp add: neighbourhood_def)
  next
    case False
    with assms have "[max 0 (c - 1)..min (n - 1) (c + 1)] = [c - 1, c, c + 1]"
      by (simp add: upto_rec1)
    with r False show ?thesis by (simp add: neighbourhood_def)
  qed
qed

lemma dig_along_first_row:
  assumes "0 \<le> c" "c + int k < n"
    and "\<forall>c'. c < c' \<longrightarrow> (0, c') \<notin> D" and "0 < c \<longrightarrow> (0, c - 1) \<in> D"
    and "\<forall>(r, c') \<in> D. r = 0"
  shows "fst (dig k ((blank_board n)\<lparr>dug := D\<rparr>) 0 c) = Inl RecursionError \<and>
         (\<forall>(r, c') \<in> dug (snd (dig k ((blank_board n)\<lparr>dug := D\<rparr>) 0 c)). r = 0)"
  using assms
proof (induction k arbitrary: c D)
  case 0
  then show ?case by simp
next
  case (Suc k)
  let ?b = "(blank_board n)\<lparr>dug := D\<rparr>"
  let ?D1 = "insert (0, c) D"
  let ?b1 = "(blank_board n)\<lparr>dug := ?D1\<rparr>"
  from Suc.prems(1,2) have c1: "c + 1 < n" and g: "in_grid n 0 c" by (simp_all add: in_grid_def)
  from Suc.prems(1) c1 have n0: "0 \<le> n" by simp
  have wf: "wf_grid n (board ?b)"
    using blank_board_ok [OF n0] by (simp add: board_ok_def blank_board_fields)
  from getitem2_grid [OF wf g] blank_board_cell [OF g]
  have cell: "getitem2 (board ?b) 0 c = Inr (Num 0)" by simp
  have b1: "?b\<lparr>dug := insert (0, c) (dug ?b)\<rparr> = ?b1" by simp
  have ih: "fst (dig k ?b1 0 (c + 1)) = Inl RecursionError \<and>
            (\<forall>(r, c') \<in> dug (snd (dig k ?b1 0 (c + 1))). r = 0)"
  proof (rule Suc.IH)
    show "0 \<le> c + 1" using Suc.prems(1) by simp
    show "c + 1 + int k < n" using Suc.prems(2) by simp
    show "\<forall>c'. c + 1 < c' \<longrightarrow> (0, c') \<notin> ?D1" using Suc.prems(3) by auto
    show "0 < c + 1 \<longrightarrow> (0, c + 1 - 1) \<in> ?D1" by simp
    show "\<forall>(r, c') \<in> ?D1. r = 0" using Suc.prems(5) by auto
  qed
  obtain b2 where d: "dig k ?b1 0 (c + 1) = (Inl RecursionError, b2)"
    and rows: "\<forall>(r, c') \<in> dug b2. r = 0"
    using ih by (cases "dig k ?b1 0 (c + 1)") auto
  from Suc.prems(3) have next_hidden: "(0, c + 1) \<notin> ?D1" by auto
  have loop: "dig_loop k ?b1 (neighbourhood n 0 c) = (Inl RecursionError, b2)"
  proof (cases "c = 0")
    case True
    with neighbourhood_first_row [OF Suc.prems(1) c1]
    have nb: "neighbourhood n 0 c = [(0, 0), (0, 1), (1, 0), (1, 1)]" by simp
    from True next_hidden d show ?thesis unfolding nb by simp
  next
    case False
    with neighbourhood_first_row [OF Suc.prems(1) c1]
    have nb: "neighbourhood n 0 c =
        [(0, c - 1), (0, c), (0, c + 1), (1, c - 1), (1, c), (1, c + 1)]" by simp
    from False Suc.prems(1,4) have "(0, c - 1) \<in> ?D1" by simp
    with next_hidden d show ?thesis unfolding nb by simp
  qed
  have "dig (Suc k) ?b 0 c = (Inl RecursionError, b2)"
    using cell loop by (simp add: Let_def blank_board_fields)
  with rows show ?case by simp
qed

lemma dig_blank_board_shallow:
  assumes "int k < n"
  shows "fst (dig k (blank_board n) 0 0) = Inl RecursionError \<and>
         (\<forall>(r, c) \<in> dug (snd (dig k (blank_board n) 0 0)). r = 0)"
proof -
  have "(blank_board n)\<lparr>dug := {}\<rparr> = blank_board n" by (simp add: blank_board_def)
  with dig_along_first_row [of 0 k n "{}"] assms show ?thesis by simp
qed

text \<open>
  Against claim C5 as stated: the board of dimension \<open>1001\<close> without bombs is a board
  the constructor returns, and \<^verbatim>\<open>dig(0, 0)\<close> on it, under the interpreter's limit
  of 1000 nested calls (the default, which the source never raises; \<^verbatim>\<open>play\<close> and
  its caller already hold some of them), walks along the first row one frame per
  cell and raises \<^verbatim>\<open>RecursionError\<close>. The cell \<open>(1, 0)\<close> and the rest of the board
  stay hidden.
\<close>

theorem dig_raises_RecursionError:
  "Board_init 1001 0 [] = Some (Inr (blank_board 1001)) \<and> in_grid 1001 0 0 \<and>
   fst (dig 1000 (blank_board 1001) 0 0) = Inl RecursionError \<and>
   (1, 0) \<notin> dug (snd (dig 1000 (blank_board 1001) 0 0))"
proof -
  have 1: "Board_init 1001 0 [] = Some (Inr (blank_board 1001))"
    by (rule Board_init_blank) simp
  have 2: "in_grid 1001 0 0" by (simp add: in_grid_def)
  have "int 1000 < 1001" by simp
  from dig_blank_board_shallow [OF this]
  have 3: "fst (dig 1000 (blank_board 1001) 0 0) = Inl RecursionError"
    and rows: "\<forall>(r, c) \<in> dug (snd (dig 1000 (blank_board 1001) 0 0)). r = 0"
    by blast+
  from rows have "(1, 0) \<notin> dug (snd (dig 1000 (blank_board 1001) 0 0))" by fastforce
  with 1 2 3 show ?thesis by blast
qed

text \<open>
  Claim C5, as the code has it. On the board the constructor returns for a dimension
  \<open>n \<ge> 1\<close> and a bomb count of \<open>0\<close> (the blank board; no draw is made), a single
  \<^verbatim>\<open>dig\<close> at any cell of the grid returns \<^verbatim>\<open>True\<close> and leaves \<open>dug\<close> equal to
  the set of all \<open>n\<^sup>2\<close> cells of the grid, with nothing else in it, provided the
  interpreter allows more than \<open>n\<^sup>2\<close> nested calls of \<^verbatim>\<open>dig\<close>.
\<close>

theorem dig_without_hazards_reveals_all:
  assumes "in_grid n row col" and "nat (n * n) < k"
  shows "Board_init n 0 draws = Some (Inr (blank_board n)) \<and>
         dig k (blank_board n) row col = (Inr True, (blank_board n)\<lparr>dug := grid_cells n\<rparr>) \<and>
         int (card (grid_cells n)) = n * n"
proof -
  from assms(1) have n0: "0 \<le> n" by (simp add: in_grid_def)
  then have "int (card (grid_cells n)) = n * n"
    by (simp add: card_grid_cells nat_mult_distrib [symmetric])
  with Board_init_blank [OF n0] blank_board_flood [OF assms] show ?thesis by simp
qed

theorem dig_without_hazards_reveals_all_witness:
  "in_grid 3 0 0 \<and> nat (3 * 3) < 10 \<and>
   Board_init 3 0 [] = Some (Inr (blank_board 3)) \<and>
   dig 10 (blank_board 3) 0 0 = (Inr True, (blank_board 3)\<lparr>dug := grid_cells 3\<rparr>) \<and>
   int (card (grid_cells 3)) = 3 * 3 \<and>
   grid_cells 3 = {(0, 0), (0, 1), (0, 2), (1, 0), (1, 1), (1, 2), (2, 0), (2, 1), (2, 2)}"
proof -
  have h: "in_grid 3 0 0" "nat (3 * 3) < 10"
    "grid_cells 3 = {(0, 0), (0, 1), (0, 2), (1, 0), (1, 1), (1, 2), (2, 0), (2, 1), (2, 2)}"
    by code_simp+
  from dig_without_hazards_reveals_all [OF h(1,2), of "[]"] h show ?thesis by blast
qed

text \<open>
  The nested calls are needed: on the three-by-three blank board \<^verbatim>\<open>dig(0, 0)\<close>
  nests nine calls, one per cell; with eight allowed it raises.
\<close>

lemma cascade_depth_needed:
  "fst (dig 8 (blank_board 3) 0 0) = Inl RecursionError \<and>
   fst (dig 9 (blank_board 3) 0 0) = Inr True"
  by code_simp

section \<open>Winning\<close>

text \<open>When only cells of the grid are in dug, the test of the loop counts cells.\<close>

lemma win_test_on_grid:
  assumes "dug b \<subseteq> grid_cells (dimension_size b) - set (hazard_cells b)"
    and "int (length (hazard_cells b)) = num_bombs b" and "0 \<le> dimension_size b"
  shows "\<not> int (card (dug b)) < dimension_size b * dimension_size b - num_bombs b \<longleftrightarrow>
         dug b = grid_cells (dimension_size b) - set (hazard_cells b)"
proof -
  let ?n = "dimension_size b"
  let ?G = "grid_cells ?n" and ?H = "set (hazard_cells b)"
  have H: "?H \<subseteq> ?G" by (simp add: set_hazard_cells bomb_set_subset)
  have fin: "finite (?G - ?H)" by (simp add: finite_grid_cells)
  have cH: "card ?H = length (hazard_cells b)"
    by (rule distinct_card [OF distinct_hazard_cells])
  have "card (?G - ?H) = card ?G - card ?H"
    by (rule card_Diff_subset [OF _ H]) simp
  moreover from card_mono [OF finite_grid_cells H] have "card ?H \<le> card ?G" .
  ultimately have "int (card (?G - ?H)) = int (card ?G) - int (card ?H)" by simp
  also have "int (card ?G) = ?n * ?n"
    using assms(3) by (simp add: card_grid_cells nat_mult_distrib [symmetric])
  finally have c: "int (card (?G - ?H)) = ?n * ?n - num_bombs b" using cH assms(2) by simp
  show ?thesis
  proof
    assume "\<not> int (card (dug b)) < ?n * ?n - num_bombs b"
    with c have "card (?G - ?H) \<le> card (dug b)" by simp
    from card_seteq [OF fin assms(1) this] show "dug b = ?G - ?H" .
  next
    assume "dug b = ?G - ?H"
    with c show "\<not> int (card (dug b)) < ?n * ?n - num_bombs b" by simp
  qed
qed

lemma hazard_cells_cong:
  "board b' = board b \<Longrightarrow> dimension_size b' = dimension_size b \<Longrightarrow>
   hazard_cells b' = hazard_cells b"
  by (simp add: hazard_cells_def)

text \<open>
  As long as the player types cells of the grid, \<^verbatim>\<open>play\<close> declares the game won only
  with every cell that holds no bomb revealed, and no other.
\<close>

lemma play_loop_won_on_grid:
  assumes "board_ok b" "int (length (hazard_cells b)) = num_bombs b"
    and "dug b \<subseteq> grid_cells (dimension_size b) - set (hazard_cells b)"
    and "\<forall>(r, c) \<in> set inputs. in_grid (dimension_size b) r c"
    and "play_loop k b inputs = Some (Inr (Won, b'))"
  shows "dug b' = grid_cells (dimension_size b') - set (hazard_cells b')"
  using assms
proof (induction inputs arbitrary: b)
  case Nil
  from Nil.prems(1) have n0: "0 \<le> dimension_size b" by (simp add: board_ok_def wf_grid_def)
  from Nil.prems(5) have "b' = b"
    "\<not> int (card (dug b)) < dimension_size b * dimension_size b - num_bombs b"
    by (auto split: if_splits option.splits)
  with win_test_on_grid [OF Nil.prems(3,2) n0] show ?case by simp
next
  case (Cons p inputs)
  obtain row col where p: "p = (row, col)" by (cases p)
  from Cons.prems(1) have n0: "0 \<le> dimension_size b" by (simp add: board_ok_def wf_grid_def)
  show ?case
  proof (cases "int (card (dug b)) < dimension_size b * dimension_size b - num_bombs b")
    case False
    with Cons.prems(5) p have "b' = b" by simp
    with False win_test_on_grid [OF Cons.prems(3,2) n0] show ?thesis by simp
  next
    case True
    from Cons.prems(4) p have g: "in_grid (dimension_size b) row col"
      and rest: "\<forall>(r, c) \<in> set inputs. in_grid (dimension_size b) r c" by simp_all
    from True Cons.prems(5) p obtain b1 where d: "dig k b row col = (Inr True, b1)"
      and l: "play_loop k b1 inputs = Some (Inr (Won, b'))"
      by (auto simp: Let_def split: option.splits sum.splits prod.splits if_splits)
    note f = dig_frame(1) [OF d]
    from dig_no_error(1) [OF d Cons.prems(1) g] have safe: "cell_at (board b) row col \<noteq> Bomb"
      by simp
    have hc: "hazard_cells b1 = hazard_cells b" using f by (intro hazard_cells_cong) simp_all
    have "dug b1 \<subseteq> grid_cells (dimension_size b) - set (hazard_cells b)"
    proof
      fix x assume x: "x \<in> dug b1"
      show "x \<in> grid_cells (dimension_size b) - set (hazard_cells b)"
      proof (cases "x \<in> dug b")
        case True
        with Cons.prems(3) show ?thesis by blast
      next
        case False
        with x dig_safe(1) [OF d Cons.prems(1) g safe] show ?thesis
          by (cases x) (auto simp: grid_cells_iff set_hazard_cells bomb_set_def)
      qed
    qed
    with f hc have 3: "dug b1 \<subseteq> grid_cells (dimension_size b1) - set (hazard_cells b1)"
      by simp
    from dig_frame_ok [OF d Cons.prems(1)] have 1: "board_ok b1" .
    from Cons.prems(2) f hc have 2: "int (length (hazard_cells b1)) = num_bombs b1" by simp
    from rest f have 4: "\<forall>(r, c) \<in> set inputs. in_grid (dimension_size b1) r c" by simp
    from 1 2 3 4 l show ?thesis by (rule Cons.IH)
  qed
qed

text \<open>
  Claim C8 says that the game counts as won exactly when every cell without a bomb is
  revealed and no bomb is. \<^verbatim>\<open>play\<close> declares the win when
  \<^verbatim>\<open>len(board.dug)\<close> reaches \<open>n\<^sup>2 - nb\<close> with the last dig safe. That is the
  claim's test as long as \<open>dug\<close> holds cells of the grid only (lemmas
  \<open>win_test_on_grid\<close> and \<open>play_loop_won_on_grid\<close>). But a coordinate off the
  grid is dug all the same (the message \<^verbatim>\<open>Invalid location. Try again\<close> is not
  followed by \<^verbatim>\<open>continue\<close>), a negative one without an exception, and it enters
  \<open>dug\<close> and is counted. On the two-by-two board with its bomb at \<open>(1, 1)\<close>, the
  player who types \<^verbatim>\<open>0,0\<close>, \<^verbatim>\<open>-2,0\<close> and \<^verbatim>\<open>-2,-2\<close> digs the cell
  \<open>(0, 0)\<close> three times, under three names, and is told that the game is won; the
  cell \<open>(0, 1)\<close>, which holds no bomb, is still hidden.
\<close>

theorem play_wins_with_cells_unrevealed:
  "play 1 2 1 [3] [(0, 0), (- 2, 0), (- 2, - 2)] =
     Some (Inr (Won, demo_board\<lparr>dug := {(0, 0), (- 2, 0), (- 2, - 2)}\<rparr>)) \<and>
   cell_at (board demo_board) 0 1 \<noteq> Bomb \<and> (0, 1) \<notin> {(0, 0), (- 2, 0), (- 2 :: int, - 2 :: int)}"
  by code_simp

text \<open>
  \<^verbatim>\<open>play\<close> prints the board before it asks for a cell. With the dimension \<open>0\<close> and
  a negative bomb count, which the constructor accepts, the loop is entered and
  \<^verbatim>\<open>__str__\<close> divides by zero.
\<close>

lemma play_dimension_zero: "play 1 0 (- 1) [] [(0, 0)] = Some (Inl ZeroDivisionError)"
  by code_simp

end
